theory Spec2Isabelle
  imports Main "HOL-Library.Word"
begin

section \<open>The CloudTrail source: record splitter\<close>

text \<open>
  Go byte slices and strings are modelled as \<open>string\<close> (a list of 8-bit characters).
  A Go \<open>int\<close> is modelled as \<open>int\<close> where it may become negative, and as \<open>nat\<close>
  where it is a range index. All counters of this file are bounded by the length of a
  slice, so the 64-bit wrap-around of Go cannot be reached.
\<close>

text \<open>The Go slice expression \<open>xs[lo:hi]\<close>, for \<open>lo \<le> hi \<le> len(xs)\<close>.\<close>

definition slice :: "'a list \<Rightarrow> nat \<Rightarrow> nat \<Rightarrow> 'a list" where
  "slice js lo hi = take (hi - lo) (drop lo js)"

text \<open>
  The loop of \<open>extractRecordStrings\<close>: \<open>js\<close> is the whole input, the second argument
  the bytes not yet visited, \<open>pos\<close> the index of its first byte.
\<close>

fun ers_loop :: "string \<Rightarrow> string \<Rightarrow> nat \<Rightarrow> int \<Rightarrow> nat \<Rightarrow> string list \<Rightarrow> string list" where
  "ers_loop js [] pos indentation entryStart res = res"
| "ers_loop js (c # cs) pos indentation entryStart res =
     (if c = CHR ''{'' then
        ers_loop js cs (pos + 1) (indentation + 1)
          (if indentation = 1 then pos else entryStart) res
      else if c = CHR ''}'' then
        (if indentation - 1 = 1 then
           (if int pos < int (length js) - 1 then
              ers_loop js cs (pos + 1) (indentation - 1) entryStart
                (res @ [slice js entryStart (pos + 1)])
            else ers_loop js cs (pos + 1) (indentation - 1) entryStart res)
         else ers_loop js cs (pos + 1) (indentation - 1) entryStart res)
      else ers_loop js cs (pos + 1) indentation entryStart res)"

definition extractRecordStrings :: "string \<Rightarrow> string list \<Rightarrow> string list" where
  "extractRecordStrings jsonStr res = ers_loop jsonStr jsonStr 0 0 0 res"

subsection \<open>Well-formed envelopes\<close>

text \<open>
  \<open>closes d r\<close>: scanning \<open>r\<close> with \<open>d\<close> inner braces open, the brace that closes
  the enclosing object is the last byte of \<open>r\<close>. Braces are counted bytewise, as the
  splitter counts them.
\<close>

fun closes :: "nat \<Rightarrow> string \<Rightarrow> bool" where
  "closes d [] = False"
| "closes d (c # cs) =
     (if c = CHR ''{'' then closes (Suc d) cs
      else if c = CHR ''}'' then (case d of 0 \<Rightarrow> cs = [] | Suc d' \<Rightarrow> closes d' cs)
      else closes d cs)"

text \<open>An inner object: an opening brace, up to its matching closing brace.\<close>

fun brace_object :: "string \<Rightarrow> bool" where
  "brace_object [] = False"
| "brace_object (c # cs) = (c = CHR ''{'' \<and> closes 0 cs)"

fun join_comma :: "string list \<Rightarrow> string" where
  "join_comma [] = []"
| "join_comma [x] = x"
| "join_comma (x # y # ys) = x @ '','' @ join_comma (y # ys)"

definition envelope :: "string list \<Rightarrow> string" where
  "envelope objs = ''{'' @ [CHR 0x22] @ ''Records'' @ [CHR 0x22] @ '':['' @ join_comma objs @ '']}''"

section \<open>The CloudTrail source: session state and the outside world\<close>

datatype OpenMode = fileMode | s3Mode | sqsMode

record fileInfo =
  name :: string
  isCompressed :: bool

text \<open>
  The state used when reading from S3. \<open>clientInit\<close> stands for \<open>client != nil\<close>;
  a \<open>nil\<close> download buffer is the empty byte string.
\<close>

record s3State =
  bucket :: string
  clientInit :: bool
  DownloadBufs :: "string list"
  lastDownloadedFileNum :: int
  nFilledBufs :: int
  curBuf :: int

text \<open>The fields of the plugin configuration that the source file reads.\<close>

record PluginConfig =
  S3DownloadConcurrency :: int
  SQSDelete :: bool
  UseS3SNS :: bool
  S3AccountList :: string
  S3Interval :: string

record PluginInstance =
  openMode :: OpenMode
  config :: PluginConfig
  files :: "fileInfo list"
  curFileNum :: "32 word"
  evtJSONStrings :: "string list"
  evtJSONListPos :: int
  s3 :: s3State

record snsMessage =
  Bucket :: string
  Keys :: "string list"

text \<open>
  What \<open>nextEvent\<close> can return besides \<open>nil\<close>: the two sentinels of the plugin SDK,
  any other Go error (by its message), and a run-time panic (by its cause).
\<close>

datatype error = ErrTimeout | ErrEOF | Failure string | Panic string

text \<open>A parsed JSON value, as far as the code looks into it.\<close>

datatype json =
  JNull | JBool bool | JNumber string | JString string
  | JArray "json list" | JObject "(string \<times> json) list"

text \<open>
  The outside world during one call: the results of the AWS calls and of the file
  read, the event writer, and the library decoders (gzip, fastjson, encoding/json,
  time.Parse), which are not part of this repository. An I/O result is \<open>Inl msg\<close> when
  the call fails. \<open>ReceiveMessage\<close> gives the bodies of the messages received,
  \<open>Download\<close> takes the bucket and the key, \<open>timeParse\<close> gives
  \<open>uint64(t.UnixNano())\<close>, \<open>evtWrite\<close> gives the pair \<open>(n, err)\<close>.
\<close>

record world =
  ReceiveMessage :: "string + string list"
  DeleteMessage :: "string option"
  Download :: "string \<Rightarrow> string \<Rightarrow> string + string"
  ReadFile :: "string \<Rightarrow> string + string"
  evtWrite :: "string \<Rightarrow> nat \<times> string option"
  gzipReadAll :: "string \<Rightarrow> string option"
  fastjsonParse :: "string \<Rightarrow> json option"
  timeParse :: "string \<Rightarrow> 64 word option"
  jsonUnmarshalMap :: "string \<Rightarrow> string + (string \<rightharpoonup> json)"
  jsonUnmarshalS3Event :: "string \<Rightarrow> string + (string \<times> string) list"
  jsonUnmarshalSNS :: "string \<Rightarrow> string + snsMessage"

subsection \<open>Helpers of the Go library\<close>

text \<open>\<open>xs[i]\<close> for a Go \<open>int\<close>: out of range is a panic, here \<open>None\<close>.\<close>

definition index :: "'a list \<Rightarrow> int \<Rightarrow> 'a option" where
  "index xs i = (if 0 \<le> i \<and> i < int (length xs) then Some (xs ! nat i) else None)"

definition HasSuffix :: "string \<Rightarrow> string \<Rightarrow> bool" where
  "HasSuffix s suffix =
     (length suffix \<le> length s \<and> drop (length s - length suffix) s = suffix)"

text \<open>\<open>fastjson\<close>'s \<open>GetStringBytes\<close> with one key: the value of the first member
  with that key when it is a string, \<open>nil\<close> otherwise.\<close>

fun GetStringBytes :: "json \<Rightarrow> string \<Rightarrow> string option" where
  "GetStringBytes (JObject kvs) key =
     (case map_of kvs key of Some (JString s) \<Rightarrow> Some s | _ \<Rightarrow> None)"
| "GetStringBytes _ key = None"

section \<open>The CloudTrail source: polling the queue\<close>

definition initS3 :: "PluginInstance \<Rightarrow> error + PluginInstance" where
  "initS3 p =
     (if \<not> clientInit (s3 p) then
        (if S3DownloadConcurrency (config p) < 0 then Inl (Panic ''makeslice: len out of range'')
         else Inr (p\<lparr>s3 := (s3 p)\<lparr>DownloadBufs := replicate (nat (S3DownloadConcurrency (config p))) [],
                                    clientInit := True\<rparr>\<rparr>))
      else Inr p)"

definition mkFileInfo :: "string \<Rightarrow> fileInfo" where
  "mkFileInfo key = \<lparr>name = key, isCompressed = HasSuffix key ''.json.gz''\<rparr>"

text \<open>The loop over the records of an S3 event (bucket name and object key of each).\<close>

fun s3EventRecords ::
  "(string \<times> string) list \<Rightarrow> bool \<Rightarrow> string \<Rightarrow> PluginInstance \<Rightarrow> (error + unit) \<times> PluginInstance" where
  "s3EventRecords [] s3Init lastBucket oCtx = (Inr (), oCtx)"
| "s3EventRecords ((bucketName, key) # records) s3Init lastBucket oCtx =
     (if \<not> s3Init \<or> bucketName \<noteq> lastBucket then
        (let oCtx1 = oCtx\<lparr>s3 := (s3 oCtx)\<lparr>bucket := bucketName\<rparr>\<rparr> in
         if \<not> s3Init then
           (case initS3 oCtx1 of
              Inl e \<Rightarrow> (Inl e, oCtx1)
            | Inr oCtx2 \<Rightarrow>
                s3EventRecords records True bucketName
                  (oCtx2\<lparr>files := files oCtx2 @ [mkFileInfo key]\<rparr>))
         else s3EventRecords records s3Init bucketName
                (oCtx1\<lparr>files := files oCtx1 @ [mkFileInfo key]\<rparr>))
      else s3EventRecords records s3Init bucketName
             (oCtx\<lparr>files := files oCtx @ [mkFileInfo key]\<rparr>))"

text \<open>The part of \<open>getMoreSQSFiles\<close> after the check of the message type.\<close>

definition sqsNotification ::
  "world \<Rightarrow> (string \<rightharpoonup> json) \<Rightarrow> PluginInstance \<Rightarrow> (error + unit) \<times> PluginInstance" where
  "sqsNotification w sqsMsg oCtx =
     (case sqsMsg ''Message'' of
        Some (JString message) \<Rightarrow>
          (if UseS3SNS (config oCtx) then
             (case jsonUnmarshalS3Event w message of
                Inl e \<Rightarrow> (Inl (Failure e), oCtx)
              | Inr records \<Rightarrow> s3EventRecords records False [] oCtx)
           else
             (case jsonUnmarshalSNS w message of
                Inl e \<Rightarrow> (Inl (Failure e), oCtx)
              | Inr notification \<Rightarrow>
                  (let oCtx1 = oCtx\<lparr>s3 := (s3 oCtx)\<lparr>bucket := Bucket notification\<rparr>\<rparr> in
                   case initS3 oCtx1 of
                     Inl e \<Rightarrow> (Inl e, oCtx1)
                   | Inr oCtx2 \<Rightarrow>
                       (Inr (), oCtx2\<lparr>files := files oCtx2 @ map mkFileInfo (Keys notification)\<rparr>))))
      | _ \<Rightarrow> (Inl (Panic ''interface conversion: Message is not a string''), oCtx))"

definition getMoreSQSFiles :: "world \<Rightarrow> PluginInstance \<Rightarrow> (error + unit) \<times> PluginInstance" where
  "getMoreSQSFiles w oCtx =
     (case ReceiveMessage w of
        Inl e \<Rightarrow> (Inl (Failure e), oCtx)
      | Inr messages \<Rightarrow>
          (case messages of
             [] \<Rightarrow> (Inr (), oCtx)
           | body # _ \<Rightarrow>
               (case (if SQSDelete (config oCtx) then DeleteMessage w else None) of
                  Some e \<Rightarrow> (Inl (Failure e), oCtx)
                | None \<Rightarrow>
                    (case jsonUnmarshalMap w body of
                       Inl e \<Rightarrow> (Inl (Failure e), oCtx)
                     | Inr sqsMsg \<Rightarrow>
                         (case sqsMsg ''Type'' of
                            None \<Rightarrow>
                              (Inl (Failure ''received SQS message that did not have a Type property''), oCtx)
                          | Some (JString messageType) \<Rightarrow>
                              (if messageType \<noteq> ''Notification'' then
                                 (Inl (Failure ''received SQS message that was not a SNS Notification''), oCtx)
                               else sqsNotification w sqsMsg oCtx)
                          | Some _ \<Rightarrow>
                              (Inl (Panic ''interface conversion: Type is not a string''), oCtx))))))"

section \<open>The CloudTrail source: downloading\<close>

text \<open>
  The downloads of one batch, slot by slot. The goroutines of the source run
  concurrently and write to distinct slots; a failed download sends its error to
  the channel and leaves its slot as it was. The errors are collected in slot order.
\<close>

fun s3Download ::
  "world \<Rightarrow> string \<Rightarrow> fileInfo list \<Rightarrow> nat \<Rightarrow> string list \<Rightarrow> string list
     \<Rightarrow> error + (string list \<times> string list)" where
  "s3Download w bkt [] j bufs errs = Inr (bufs, errs)"
| "s3Download w bkt (f # fs) j bufs errs =
     (case Download w bkt (name f) of
        Inl e \<Rightarrow> s3Download w bkt fs (j + 1) bufs (errs @ [e])
      | Inr body \<Rightarrow>
          (if j < length bufs then s3Download w bkt fs (j + 1) (bufs[j := body]) errs
           else Inl (Panic ''index out of range'')))"

definition readNextFileS3 :: "world \<Rightarrow> PluginInstance \<Rightarrow> (error + string) \<times> PluginInstance" where
  "readNextFileS3 w oCtx =
     (if curBuf (s3 oCtx) < nFilledBufs (s3 oCtx) then
        (let cb = curBuf (s3 oCtx);
             oCtx1 = oCtx\<lparr>s3 := (s3 oCtx)\<lparr>curBuf := cb + 1\<rparr>\<rparr>
         in case index (DownloadBufs (s3 oCtx1)) cb of
              None \<Rightarrow> (Inl (Panic ''index out of range''), oCtx1)
            | Some buf \<Rightarrow> (Inr buf, oCtx1))
      else
        (let k = lastDownloadedFileNum (s3 oCtx);
             n = min (S3DownloadConcurrency (config oCtx)) (int (length (files oCtx)) - k);
             oCtx1 = oCtx\<lparr>s3 := (s3 oCtx)\<lparr>nFilledBufs := n\<rparr>\<rparr>
         in if k < 0 \<or> n < 0 then (Inl (Panic ''slice bounds out of range''), oCtx1)
            else
              (case s3Download w (bucket (s3 oCtx1)) (slice (files oCtx1) (nat k) (nat (k + n))) 0
                      (DownloadBufs (s3 oCtx1)) [] of
                 Inl e \<Rightarrow> (Inl e, oCtx1)
               | Inr (bufs, errs) \<Rightarrow>
                   (let oCtx2 = oCtx1\<lparr>s3 := (s3 oCtx1)\<lparr>DownloadBufs := bufs\<rparr>\<rparr> in
                    case errs of
                      e # _ \<Rightarrow> (Inl (Failure e), oCtx2)
                    | [] \<Rightarrow>
                        (let oCtx3 = oCtx2\<lparr>s3 := (s3 oCtx2)
                               \<lparr>lastDownloadedFileNum := lastDownloadedFileNum (s3 oCtx2) + n,
                                curBuf := 1\<rparr>\<rparr>
                         in case index (DownloadBufs (s3 oCtx3)) 0 of
                              None \<Rightarrow> (Inl (Panic ''index out of range''), oCtx3)
                            | Some buf \<Rightarrow> (Inr buf, oCtx3))))))"

section \<open>The CloudTrail source: the pull\<close>

text \<open>Lines 647 to 665 of \<open>nextEvent\<close>: with no file left, poll the queue or stop.\<close>

definition moreFiles :: "world \<Rightarrow> PluginInstance \<Rightarrow> (error + unit) \<times> PluginInstance" where
  "moreFiles w oCtx =
     (if curFileNum oCtx \<ge> of_nat (length (files oCtx)) then
        (if openMode oCtx = sqsMode then
           (case getMoreSQSFiles w oCtx of
              (Inl e, oCtx1) \<Rightarrow> (Inl e, oCtx1)
            | (Inr _, oCtx1) \<Rightarrow>
                (if curFileNum oCtx1 \<ge> of_nat (length (files oCtx1)) then (Inl ErrTimeout, oCtx1)
                 else (Inr (), oCtx1)))
         else (Inl ErrEOF, oCtx))
      else (Inr (), oCtx))"

text \<open>Lines 670 to 675: the bytes of the file, by the mode of the session.\<close>

definition readFile :: "world \<Rightarrow> fileInfo \<Rightarrow> PluginInstance \<Rightarrow> (error + string) \<times> PluginInstance" where
  "readFile w file oCtx =
     (case openMode oCtx of
        fileMode \<Rightarrow>
          (case ReadFile w (name file) of
             Inl e \<Rightarrow> (Inl (Failure e), oCtx)
           | Inr tmpStr \<Rightarrow> (Inr tmpStr, oCtx))
      | _ \<Rightarrow> readNextFileS3 w oCtx)"

text \<open>Lines 667 to 708: read the next file, inflate it, split it into records.\<close>

definition openNextFile :: "world \<Rightarrow> PluginInstance \<Rightarrow> (error + unit) \<times> PluginInstance" where
  "openNextFile w oCtx =
     (case index (files oCtx) (int (unat (curFileNum oCtx))) of
        None \<Rightarrow> (Inl (Panic ''index out of range''), oCtx)
      | Some file \<Rightarrow>
          (case readFile w file (oCtx\<lparr>curFileNum := curFileNum oCtx + 1\<rparr>) of
             (Inl e, oCtx1) \<Rightarrow> (Inl e, oCtx1)
           | (Inr tmpStr, oCtx1) \<Rightarrow>
               (case (if isCompressed file then gzipReadAll w tmpStr else Some tmpStr) of
                  None \<Rightarrow> (Inl ErrTimeout, oCtx1)
                | Some tmpStr1 \<Rightarrow>
                    (Inr (), oCtx1\<lparr>evtJSONStrings := extractRecordStrings tmpStr1 [],
                                   evtJSONListPos := 0\<rparr>))))"

text \<open>Lines 645 to 708: a new file is opened only when the records of the previous
  one are consumed.\<close>

definition refill :: "world \<Rightarrow> PluginInstance \<Rightarrow> (error + unit) \<times> PluginInstance" where
  "refill w oCtx =
     (if evtJSONListPos oCtx \<ge> int (length (evtJSONStrings oCtx)) then
        (case moreFiles w oCtx of
           (Inl e, oCtx1) \<Rightarrow> (Inl e, oCtx1)
         | (Inr _, oCtx1) \<Rightarrow> openNextFile w oCtx1)
      else (Inr (), oCtx))"

text \<open>
  Lines 711 to 770: take the next record and emit it. The result \<open>Inr (ts, data)\<close>
  is the return of \<open>nil\<close> after \<open>SetTimestamp(ts)\<close> and a complete write of \<open>data\<close>.
  The message of the short write is kept without its two numbers.
\<close>

definition emitRecord ::
  "world \<Rightarrow> PluginInstance \<Rightarrow> (error + (64 word \<times> string)) \<times> PluginInstance" where
  "emitRecord w oCtx =
     (if length (evtJSONStrings oCtx) \<noteq> 0 then
        (case index (evtJSONStrings oCtx) (evtJSONListPos oCtx) of
           None \<Rightarrow> (Inl (Panic ''index out of range''), oCtx)
         | Some evtData \<Rightarrow>
             (let oCtx1 = oCtx\<lparr>evtJSONListPos := evtJSONListPos oCtx + 1\<rparr> in
              case fastjsonParse w evtData of
                None \<Rightarrow> (Inl ErrTimeout, oCtx1)
              | Some cr \<Rightarrow>
                  (case GetStringBytes cr ''eventTime'' of
                     None \<Rightarrow> (Inl ErrTimeout, oCtx1)
                   | Some timeVal \<Rightarrow>
                       (case timeParse w timeVal of
                          None \<Rightarrow> (Inl ErrTimeout, oCtx1)
                        | Some ts \<Rightarrow>
                            (case GetStringBytes cr ''eventType'' of
                               None \<Rightarrow> (Inl ErrTimeout, oCtx1)
                             | Some ets \<Rightarrow>
                                 (if ets = ''AwsCloudTrailInsight'' then (Inl ErrTimeout, oCtx1)
                                  else
                                    (case evtWrite w evtData of
                                       (n, Some e) \<Rightarrow> (Inl (Failure e), oCtx1)
                                     | (n, None) \<Rightarrow>
                                         (if n < length evtData then
                                            (Inl (Failure ''cloudwatch message too long''), oCtx1)
                                          else (Inr (ts, evtData), oCtx1)))))))))
      else (Inl ErrTimeout, oCtx))"

definition nextEvent ::
  "world \<Rightarrow> PluginInstance \<Rightarrow> (error + (64 word \<times> string)) \<times> PluginInstance" where
  "nextEvent w oCtx =
     (case refill w oCtx of
        (Inl e, oCtx1) \<Rightarrow> (Inl e, oCtx1)
      | (Inr _, oCtx1) \<Rightarrow> emitRecord w oCtx1)"

text \<open>A run of pulls, each in its own world, with the results in order.\<close>

fun pulls ::
  "world list \<Rightarrow> PluginInstance \<Rightarrow> (error + (64 word \<times> string)) list \<times> PluginInstance" where
  "pulls [] oCtx = ([], oCtx)"
| "pulls (w # ws) oCtx =
     (let (r, oCtx1) = nextEvent w oCtx; (rs, oCtx2) = pulls ws oCtx1 in (r # rs, oCtx2))"

text \<open>
  The file that a pull opens, if it opens one, with the bytes that it reads for
  it: the entry of \<open>files\<close> at the file cursor (line 666) and the \<open>tmpStr\<close> of
  lines 669 to 674, which line 681 hands to gzip when the file is flagged as
  compressed. In a run of pulls, one entry for each pull.
\<close>

definition opened :: "world \<Rightarrow> PluginInstance \<Rightarrow> (fileInfo \<times> string) option" where
  "opened w oCtx =
     (if evtJSONListPos oCtx \<ge> int (length (evtJSONStrings oCtx)) then
        (case moreFiles w oCtx of
           (Inl e, oCtx1) \<Rightarrow> None
         | (Inr _, oCtx1) \<Rightarrow>
             (case index (files oCtx1) (int (unat (curFileNum oCtx1))) of
                None \<Rightarrow> None
              | Some file \<Rightarrow>
                  (case readFile w file (oCtx1\<lparr>curFileNum := curFileNum oCtx1 + 1\<rparr>) of
                     (Inl e, oCtx2) \<Rightarrow> None
                   | (Inr tmpStr, oCtx2) \<Rightarrow> Some (file, tmpStr))))
      else None)"

fun opens :: "world list \<Rightarrow> PluginInstance \<Rightarrow> (fileInfo \<times> string) option list" where
  "opens [] oCtx = []"
| "opens (w # ws) oCtx = opened w oCtx # opens ws (snd (nextEvent w oCtx))"

text \<open>A run of calls of \<open>readNextFileS3\<close>.\<close>

fun reads :: "world list \<Rightarrow> PluginInstance \<Rightarrow> (error + string) list \<times> PluginInstance" where
  "reads [] oCtx = ([], oCtx)"
| "reads (w # ws) oCtx =
     (let (r, oCtx1) = readNextFileS3 w oCtx; (rs, oCtx2) = reads ws oCtx1 in (r # rs, oCtx2))"

text \<open>A run of polls of the queue, each of which succeeds and brings no new file.\<close>

fun emptyPolls :: "world list \<Rightarrow> PluginInstance \<Rightarrow> bool" where
  "emptyPolls [] oCtx = True"
| "emptyPolls (w # ws) oCtx =
     (case getMoreSQSFiles w oCtx of
        (Inr _, oCtx1) \<Rightarrow> files oCtx1 = files oCtx \<and> emptyPolls ws oCtx1
      | (Inl _, _) \<Rightarrow> False)"

text \<open>The fields of the session that only \<open>nextEvent\<close> itself writes.\<close>

definition keeps :: "PluginInstance \<Rightarrow> PluginInstance \<Rightarrow> bool" where
  "keeps p p' = (curFileNum p' = curFileNum p \<and> openMode p' = openMode p
     \<and> evtJSONStrings p' = evtJSONStrings p \<and> evtJSONListPos p' = evtJSONListPos p
     \<and> config p' = config p)"

text \<open>The body that a download of the file gives, empty when the download fails.\<close>

definition fetched :: "world \<Rightarrow> string \<Rightarrow> fileInfo \<Rightarrow> string" where
  "fetched w bkt f = (case Download w bkt (name f) of Inr body \<Rightarrow> body | Inl _ \<Rightarrow> [])"

subsection \<open>The causes of a fatal error\<close>

text \<open>
  \<open>badMessage w useS3SNS body e\<close>: the message body does not decode as an SNS
  notification of the configured shape, and \<open>e\<close> is the error of the first decoding
  step that fails.
\<close>

definition badMessage :: "world \<Rightarrow> bool \<Rightarrow> string \<Rightarrow> string \<Rightarrow> bool" where
  "badMessage w useS3SNS body e =
     (case jsonUnmarshalMap w body of
        Inl e' \<Rightarrow> e = e'
      | Inr sqsMsg \<Rightarrow>
          (case sqsMsg ''Type'' of
             None \<Rightarrow> e = ''received SQS message that did not have a Type property''
           | Some (JString messageType) \<Rightarrow>
               (if messageType \<noteq> ''Notification'' then
                  e = ''received SQS message that was not a SNS Notification''
                else
                  (case sqsMsg ''Message'' of
                     Some (JString message) \<Rightarrow>
                       (if useS3SNS then jsonUnmarshalS3Event w message = Inl e
                        else jsonUnmarshalSNS w message = Inl e)
                   | _ \<Rightarrow> False))
           | Some _ \<Rightarrow> False))"

text \<open>A record that parses, with a valid \<open>eventTime\<close> and an \<open>eventType\<close> that
  is not the insight type: the records that a pull writes.\<close>

definition recordAccepted :: "world \<Rightarrow> string \<Rightarrow> bool" where
  "recordAccepted w evtData =
     (case fastjsonParse w evtData of
        None \<Rightarrow> False
      | Some cr \<Rightarrow>
          (case GetStringBytes cr ''eventTime'' of
             None \<Rightarrow> False
           | Some timeVal \<Rightarrow>
               (case timeParse w timeVal of
                  None \<Rightarrow> False
                | Some ts \<Rightarrow>
                    (case GetStringBytes cr ''eventType'' of
                       None \<Rightarrow> False
                     | Some ets \<Rightarrow> ets \<noteq> ''AwsCloudTrailInsight''))))"

text \<open>The write of the record fails, or is short, with error \<open>e\<close>.\<close>

definition writeFailed :: "world \<Rightarrow> string \<Rightarrow> string \<Rightarrow> bool" where
  "writeFailed w evtData e =
     (case evtWrite w evtData of
        (n, Some e') \<Rightarrow> e = e'
      | (n, None) \<Rightarrow> n < length evtData \<and> e = ''cloudwatch message too long'')"

section \<open>The CloudTrail source: opening a bucket\<close>

subsection \<open>Strings and patterns\<close>

text \<open>The order of Go strings: bytewise lexicographic.\<close>

fun strLess :: "string \<Rightarrow> string \<Rightarrow> bool" where
  "strLess [] [] = False"
| "strLess [] (y # ys) = True"
| "strLess (x # xs) [] = False"
| "strLess (x # xs) (y # ys) =
     ((of_char x :: nat) < of_char y \<or> (x = y \<and> strLess xs ys))"

definition isDigit :: "char \<Rightarrow> bool" where
  "isDigit c = ((48::nat) \<le> of_char c \<and> (of_char c :: nat) \<le> 57)"

definition isLowerAlnum :: "char \<Rightarrow> bool" where
  "isLowerAlnum c = (isDigit c \<or> ((97::nat) \<le> of_char c \<and> (of_char c :: nat) \<le> 122))"

text \<open>
  \<open>filepath.Ext\<close> with the separator of Unix: the suffix from the last dot of
  the last path element, empty when that element has no dot.
\<close>

definition Ext :: "string \<Rightarrow> string" where
  "Ext path =
     (let r = rev path;
          seg = takeWhile (\<lambda>c. c \<noteq> CHR ''/'' \<and> c \<noteq> CHR ''.'') r
      in case dropWhile (\<lambda>c. c \<noteq> CHR ''/'' \<and> c \<noteq> CHR ''.'') r of
           [] \<Rightarrow> []
         | c # _ \<Rightarrow> (if c = CHR ''.'' then CHR ''.'' # rev seg else []))"

text \<open>\<open>strings.Split(s, ",")\<close>; the first argument is the piece being read.\<close>

fun splitComma :: "string \<Rightarrow> string \<Rightarrow> string list" where
  "splitComma cur [] = [cur]"
| "splitComma cur (c # cs) =
     (if c = CHR '','' then cur # splitComma [] cs else splitComma (cur @ [c]) cs)"

definition Split :: "string \<Rightarrow> string list" where
  "Split s = splitComma [] s"

text \<open>\<open>strings.TrimSpace\<close> on a string of ASCII bytes.\<close>

definition isSpace :: "char \<Rightarrow> bool" where
  "isSpace c = ((of_char c :: nat) = 32 \<or> ((9::nat) \<le> of_char c \<and> (of_char c :: nat) \<le> 13))"

definition TrimSpace :: "string \<Rightarrow> string" where
  "TrimSpace s = rev (dropWhile isSpace (rev (dropWhile isSpace s)))"

text \<open>
  The regular expressions of the source are matched by Go's \<open>regexp\<close> package;
  each is modelled by a matcher written for its pattern. \<open>anySuffix P s\<close> holds
  when some suffix of \<open>s\<close> satisfies \<open>P\<close>: a pattern that ends in \<open>$\<close> and is not
  anchored at the start matches \<open>s\<close> when it matches a suffix of \<open>s\<close> as a whole.
\<close>

fun anySuffix :: "(string \<Rightarrow> bool) \<Rightarrow> string \<Rightarrow> bool" where
  "anySuffix P [] = P []"
| "anySuffix P (c # cs) = (P (c # cs) \<or> anySuffix P cs)"

text \<open>\<open>\d{12}/?\<close>, as a whole.\<close>

definition accountTail :: "string \<Rightarrow> bool" where
  "accountTail t =
     ((length t = 12 \<and> list_all isDigit t)
      \<or> (length t = 13 \<and> list_all isDigit (take 12 t) \<and> drop 12 t = ''/''))"

text \<open>\<open>o-[a-z0-9]{10,32}\<close>, as a whole.\<close>

definition orgSegment :: "string \<Rightarrow> bool" where
  "orgSegment t =
     (take 2 t = ''o-'' \<and> 10 \<le> length (drop 2 t) \<and> length (drop 2 t) \<le> 32
      \<and> list_all isLowerAlnum (drop 2 t))"

text \<open>\<open>/AWSLogs/(?:o-[a-z0-9]{10,32}/)?\d{12}/?\<close>, as a whole: an organization
  segment has no slash, so it ends at the first slash after \<open>/AWSLogs/\<close>.\<close>

definition awsLogsWhole :: "string \<Rightarrow> bool" where
  "awsLogsWhole u =
     (take 9 u = ''/AWSLogs/'' \<and>
      (let v = drop 9 u in
       accountTail v
       \<or> (orgSegment (takeWhile (\<lambda>c. c \<noteq> CHR ''/'') v)
           \<and> (case dropWhile (\<lambda>c. c \<noteq> CHR ''/'') v of [] \<Rightarrow> False | _ # t \<Rightarrow> accountTail t))))"

text \<open>\<open>awsLogsRE.MatchString\<close>, for the pattern
  \<open>/AWSLogs/(?:o-[a-z0-9]{10,32}/)?\d{12}/?$\<close>.\<close>

definition awsLogsRE :: "string \<Rightarrow> bool" where
  "awsLogsRE s = anySuffix awsLogsWhole s"

text \<open>\<open>/AWSLogs(?:/o-[a-z0-9]{10,32})?/?\<close>, as a whole.\<close>

definition awsLogsOrgWhole :: "string \<Rightarrow> bool" where
  "awsLogsOrgWhole u =
     (take 8 u = ''/AWSLogs'' \<and>
      (let v = drop 8 u in
       v = [] \<or> v = ''/''
       \<or> (take 1 v = ''/'' \<and> (orgSegment (drop 1 v)
             \<or> (drop 1 v \<noteq> [] \<and> last v = CHR ''/'' \<and> orgSegment (butlast (drop 1 v)))))))"

text \<open>\<open>awsLogsOrgRE.MatchString\<close>, for the pattern
  \<open>/AWSLogs(?:/o-[a-z0-9]{10,32})?/?$\<close>.\<close>

definition awsLogsOrgRE :: "string \<Rightarrow> bool" where
  "awsLogsOrgRE s = anySuffix awsLogsOrgWhole s"

text \<open>
  \<open>accountListRE.MatchString\<close>, for the pattern \<open>^(?: *\d{12} *,?)*$\<close>: the
  string is read item by item, each item being spaces, twelve digits, spaces and
  an optional comma. The first argument bounds the number of items; the length of
  the string is always enough.
\<close>

fun accountItems :: "nat \<Rightarrow> string \<Rightarrow> bool" where
  "accountItems n [] = True"
| "accountItems 0 (c # cs) = False"
| "accountItems (Suc n) (c # cs) =
     (let s1 = dropWhile (\<lambda>x. x = CHR '' '') (c # cs) in
      length (take 12 s1) = 12 \<and> list_all isDigit (take 12 s1) \<and>
      (let s2 = dropWhile (\<lambda>x. x = CHR '' '') (drop 12 s1) in
       accountItems n (case s2 of [] \<Rightarrow> [] | x # xs \<Rightarrow> if x = CHR '','' then xs else s2)))"

definition accountListRE :: "string \<Rightarrow> bool" where
  "accountListRE s = accountItems (length s) s"

text \<open>
  \<open>filepathRE.FindStringSubmatch\<close>, for the pattern
  \<open>.*_CloudTrail_[^_]+_([^_]+)Z_\<close>; the result is the first group, \<open>None\<close> for
  no match. \<open>matchTail\<close> matches \<open>_CloudTrail_[^_]+_([^_]+)Z_\<close> at the head of
  its argument: the region is the run up to the next underscore, the group and its
  \<open>Z\<close> the run up to the one after. The leading \<open>.*\<close> is greedy and does not
  cross a newline, and the leftmost match wins: the match is the last one of the
  first line that has one.
\<close>

definition matchTail :: "string \<Rightarrow> string option" where
  "matchTail s =
     (if take 12 s = ''_CloudTrail_'' then
        (let s1 = drop 12 s;
             region = takeWhile (\<lambda>c. c \<noteq> CHR ''_'') s1
         in case dropWhile (\<lambda>c. c \<noteq> CHR ''_'') s1 of
              [] \<Rightarrow> None
            | _ # rest \<Rightarrow>
                (let t = takeWhile (\<lambda>c. c \<noteq> CHR ''_'') rest in
                 if region = [] \<or> dropWhile (\<lambda>c. c \<noteq> CHR ''_'') rest = []
                    \<or> length t < 2 \<or> last t \<noteq> CHR ''Z''
                 then None else Some (butlast t)))
      else None)"

fun findTail :: "string option \<Rightarrow> string \<Rightarrow> string option" where
  "findTail best [] = best"
| "findTail best (c # cs) =
     (if c = CHR 0x0A then (case best of Some g \<Rightarrow> Some g | None \<Rightarrow> findTail None cs)
      else findTail (case matchTail (c # cs) of Some g \<Rightarrow> Some g | None \<Rightarrow> best) cs)"

definition filepathRE :: "string \<Rightarrow> string option" where
  "filepathRE path = findTail None path"

subsection \<open>Listing the keys\<close>

record listOrigin =
  prefix :: string
  startAfter :: "string option"

text \<open>
  A \<open>time.Time\<close>, by what the code observes of it: whether it is the zero time,
  and its formats with the layouts \<open>2006/01/02/\<close>, \<open>20060102T1504\<close> and
  \<open>RFC3339Simple\<close>.
\<close>

record gotime =
  IsZero :: bool
  dayPath :: string
  stamp :: string
  simple :: string

text \<open>
  The outside world while a bucket is opened. \<open>ParseInterval\<close> is a function of
  this repository that the source file calls and does not define; it is taken from
  the world with the calls of S3: the pages of account prefixes under a prefix,
  the region prefixes under a prefix (one call), and the pages of keys of a listing
  origin. A page, or the call, is \<open>Inl msg\<close> when it fails. \<open>Schedule\<close> is the
  scheduler of the listings that run at the same time: for the origins of a chunk,
  the listing that takes each next step.
\<close>

record listing =
  ParseInterval :: "string \<Rightarrow> string + (gotime \<times> gotime)"
  ListAccounts :: "string \<Rightarrow> string \<Rightarrow> (string + string list) list"
  ListRegions :: "string \<Rightarrow> string \<Rightarrow> string + string list"
  ListObjects :: "string \<Rightarrow> listOrigin \<Rightarrow> (string + string list) list"
  Schedule :: "listOrigin list \<Rightarrow> nat list"

datatype openError =
  InvalidConcurrency int
  | InvalidInterval string string
  | InvalidAccountList string
  | ListAccountsFailed string
  | StartAfterEnd string string
  | ListObjectsFailed string
  | OpenPanic string

text \<open>The two tests of the loop body of \<open>listKeys\<close> that skip a key.\<close>

definition droppedByTS :: "string \<Rightarrow> string \<Rightarrow> string \<Rightarrow> bool" where
  "droppedByTS startTS endTS path =
     (startTS \<noteq> [] \<and>
      (case filepathRE path of
         None \<Rightarrow> False
       | Some pathTS \<Rightarrow> strLess pathTS startTS \<or> (endTS \<noteq> [] \<and> strLess endTS pathTS)))"

definition droppedByExt :: "string \<Rightarrow> bool" where
  "droppedByExt path = (Ext path \<noteq> ''.json'' \<and> \<not> HasSuffix path ''.json.gz'')"

text \<open>The loop over the keys of one page.\<close>

fun listKeysContents :: "string \<Rightarrow> string \<Rightarrow> string list \<Rightarrow> fileInfo list \<Rightarrow> fileInfo list" where
  "listKeysContents startTS endTS [] fs = fs"
| "listKeysContents startTS endTS (path # paths) fs =
     (if droppedByTS startTS endTS path then listKeysContents startTS endTS paths fs
      else if droppedByExt path then listKeysContents startTS endTS paths fs
      else listKeysContents startTS endTS paths
             (fs @ [\<lparr>name = path, isCompressed = HasSuffix path ''.json.gz''\<rparr>]))"

text \<open>
  \<open>listKeys\<close> over the pages of one origin: the error sent to the channel, if any,
  and the file list. The first page that fails ends the listing.
\<close>

fun listKeys ::
  "(string + string list) list \<Rightarrow> string \<Rightarrow> string \<Rightarrow> fileInfo list \<Rightarrow> string option \<times> fileInfo list" where
  "listKeys [] startTS endTS fs = (None, fs)"
| "listKeys (Inl err # pages) startTS endTS fs = (Some err, fs)"
| "listKeys (Inr contents # pages) startTS endTS fs =
     listKeys pages startTS endTS (listKeysContents startTS endTS contents fs)"

subsection \<open>From the prefix to the listing origins\<close>

function chunkLoop :: "listOrigin list \<Rightarrow> nat \<Rightarrow> nat \<Rightarrow> listOrigin list list" where
  "chunkLoop orgList chunkSize prev =
     (if 0 < chunkSize \<and> int prev < int (length orgList) - int chunkSize then
        slice orgList prev (prev + chunkSize) # chunkLoop orgList chunkSize (prev + chunkSize)
      else [drop prev orgList])"
  by pat_completeness auto
termination
  by (relation "measure (\<lambda>(orgList, chunkSize, prev). length orgList - prev)") auto

declare chunkLoop.simps [simp del]

text \<open>
  The arithmetic of a 64-bit \<open>int\<close>: a sum wraps around, a quotient is truncated
  toward zero.
\<close>

definition wrap64 :: "int \<Rightarrow> int" where
  "wrap64 x = (x + 2 ^ 63) mod 2 ^ 64 - 2 ^ 63"

definition quo :: "int \<Rightarrow> int \<Rightarrow> int" where
  "quo a b = sgn a * sgn b * (\<bar>a\<bar> div \<bar>b\<bar>)"

text \<open>
  \<open>chunkListOrigin\<close>: \<open>divided\<close> is made with
  \<open>(len(orgList)+chunkSize-1)/chunkSize\<close> entries, a number that the wrapped sum
  makes negative or zero when \<open>chunkSize\<close> is near the largest \<open>int\<close>; \<open>make\<close>
  panics on a negative length, and the assignment \<open>divided[i]\<close> panics when
  \<open>i\<close> is not below the length. \<open>chunkLoop\<close> gives the chunks that the loop and
  the line after it assign, in the order of \<open>i\<close>; the entries of \<open>divided\<close> that
  are never assigned stay empty.
\<close>

definition chunkListOrigin :: "listOrigin list \<Rightarrow> int \<Rightarrow> openError + listOrigin list list" where
  "chunkListOrigin orgList chunkSize =
     (if length orgList = 0 \<or> chunkSize < 1 then Inr []
      else
        (let size = quo (wrap64 (wrap64 (int (length orgList) + chunkSize) - 1)) chunkSize
         in if size < 0 then Inl (OpenPanic ''makeslice: len out of range'')
            else
              (let chunks = chunkLoop orgList (nat chunkSize) 0
               in if size < int (length chunks) then Inl (OpenPanic ''index out of range'')
                  else Inr (chunks @ replicate (nat size - length chunks) []))))"

definition ensureSlash :: "string \<Rightarrow> string" where
  "ensureSlash intervalPrefix =
     (if \<not> HasSuffix intervalPrefix ''/'' then intervalPrefix @ ''/'' else intervalPrefix)"

text \<open>The pages of account prefixes, when no account list is configured.\<close>

fun accountPages :: "(string + string list) list \<Rightarrow> string list \<Rightarrow> openError + string list" where
  "accountPages [] intervalPrefixList = Inr intervalPrefixList"
| "accountPages (Inl err # pages) intervalPrefixList = Inl (ListAccountsFailed err)"
| "accountPages (Inr commonPrefixes # pages) intervalPrefixList =
     accountPages pages
       (intervalPrefixList @ map (\<lambda>path. path @ ''CloudTrail/'') (filter awsLogsRE commonPrefixes))"

text \<open>Lines 279 to 341 of \<open>openS3\<close>: the listing prefixes, by the shape of the prefix.\<close>

definition intervalPrefixes :: "listing \<Rightarrow> string \<Rightarrow> string \<Rightarrow> string \<Rightarrow> openError + string list" where
  "intervalPrefixes w bkt pfx s3AccountList =
     (if awsLogsRE pfx then Inr [ensureSlash pfx @ ''CloudTrail/'']
      else if awsLogsOrgRE pfx then
        (if s3AccountList \<noteq> [] then
           Inr (map (\<lambda>account. ensureSlash pfx @ account @ ''/CloudTrail/'')
                  (map TrimSpace (Split s3AccountList)))
         else accountPages (ListAccounts w bkt (ensureSlash pfx)) [])
      else Inr [pfx])"

text \<open>Lines 343 to 365: the region prefixes under each listing prefix that ends
  in \<open>/CloudTrail/\<close>; a failed call is passed over.\<close>

fun regionParams :: "listing \<Rightarrow> string \<Rightarrow> gotime \<Rightarrow> string list \<Rightarrow> listOrigin list" where
  "regionParams w bkt startTime [] = []"
| "regionParams w bkt startTime (intervalPrefix # rest) =
     (if HasSuffix intervalPrefix ''/CloudTrail/'' then
        (case ListRegions w bkt intervalPrefix of
           Inl err \<Rightarrow> []
         | Inr commonPrefixes \<Rightarrow>
             map (\<lambda>cp. \<lparr>prefix = cp,
                        startAfter = (if \<not> IsZero startTime then Some (cp @ dayPath startTime)
                                      else None)\<rparr>) commonPrefixes)
      else [])
     @ regionParams w bkt startTime rest"

text \<open>Lines 367 to 385: the two timestamps given to \<open>listKeys\<close>, and the fallback
  to the prefix as it was given when no region prefix was found.\<close>

definition windowTS ::
  "listOrigin list \<Rightarrow> string \<Rightarrow> gotime \<Rightarrow> gotime \<Rightarrow> openError + (listOrigin list \<times> string \<times> string)" where
  "windowTS inputParams pfx startTime endTime =
     (if length inputParams > 0 then
        (if \<not> IsZero startTime then
           (if \<not> IsZero endTime then
              (if strLess (stamp endTime) (stamp startTime) then
                 Inl (StartAfterEnd (simple startTime) (simple endTime))
               else Inr (inputParams, stamp startTime, stamp endTime))
            else Inr (inputParams, stamp startTime, []))
         else Inr (inputParams, [], []))
      else Inr ([\<lparr>prefix = pfx, startAfter = None\<rparr>], [], []))"

text \<open>
  Lines 387 to 415: the origins are listed chunk by chunk, and the listings of a
  chunk run at the same time, each a \<open>listKeys\<close> of its own that appends to the
  same file list and sends its error, if a page fails, to the same channel. What a
  listing does to the two is a sequence of actions: its appends, in the order of
  its pages and keys, and then its send.
\<close>

datatype action = Append fileInfo | Send string

definition listKeysActions ::
  "(string + string list) list \<Rightarrow> string \<Rightarrow> string \<Rightarrow> action list" where
  "listKeysActions pages startTS endTS =
     (case listKeys pages startTS endTS [] of
        (None, fs) \<Rightarrow> map Append fs
      | (Some err, fs) \<Rightarrow> map Append fs @ [Send err])"

text \<open>
  The actions of the listings of a chunk, merged: each entry of the schedule names
  the listing that does its next action (an entry that names no listing, or one
  that has finished, does nothing), and \<open>Wait\<close> then lets every listing finish.
  The order of the actions of one listing is kept; the order between two listings
  is the schedule's. An append (line 222) is taken as one step: the source takes
  no lock for it, and what two appends that overlap would leave in the list is
  not modelled.
\<close>

fun interleave :: "nat list \<Rightarrow> 'a list list \<Rightarrow> 'a list" where
  "interleave [] workers = concat workers"
| "interleave (i # sched) workers =
     (if i < length workers then
        (case workers ! i of
           [] \<Rightarrow> interleave sched workers
         | a # rest \<Rightarrow> a # interleave sched (workers[i := rest]))
      else interleave sched workers)"

definition listChunk ::
  "listing \<Rightarrow> string \<Rightarrow> string \<Rightarrow> string \<Rightarrow> listOrigin list \<Rightarrow> action list" where
  "listChunk w bkt startTS endTS chunk =
     interleave (Schedule w chunk)
       (map (\<lambda>params. listKeysActions (ListObjects w bkt params) startTS endTS) chunk)"

text \<open>The files appended and the errors sent, in the order of the actions.\<close>

fun appended :: "action list \<Rightarrow> fileInfo list" where
  "appended [] = []"
| "appended (Append fi # acts) = fi # appended acts"
| "appended (Send err # acts) = appended acts"

fun sent :: "action list \<Rightarrow> string list" where
  "sent [] = []"
| "sent (Append fi # acts) = sent acts"
| "sent (Send err # acts) = err # sent acts"

text \<open>After each chunk the first error of the channel, if there is one, ends the
  opening.\<close>

fun listChunks ::
  "listing \<Rightarrow> string \<Rightarrow> string \<Rightarrow> string \<Rightarrow> listOrigin list list \<Rightarrow> fileInfo list
     \<Rightarrow> openError + fileInfo list" where
  "listChunks w bkt startTS endTS [] fs = Inr fs"
| "listChunks w bkt startTS endTS (chunk # chunks) fs =
     (case sent (listChunk w bkt startTS endTS chunk) of
        err # _ \<Rightarrow> Inl (ListObjectsFailed err)
      | [] \<Rightarrow>
          listChunks w bkt startTS endTS chunks
            (fs @ appended (listChunk w bkt startTS endTS chunk)))"

text \<open>\<open>strings.Index(input, "/")\<close>, \<open>None\<close> for -1.\<close>

fun IndexSlash :: "string \<Rightarrow> nat option" where
  "IndexSlash [] = None"
| "IndexSlash (c # cs) =
     (if c = CHR ''/'' then Some 0 else map_option Suc (IndexSlash cs))"

text \<open>Lines 236 to 247: the input without its \<open>s3://\<close>, cut at the first slash.\<close>

definition bucketOf :: "string \<Rightarrow> string" where
  "bucketOf input =
     (case IndexSlash (drop 5 input) of None \<Rightarrow> drop 5 input | Some i \<Rightarrow> take i (drop 5 input))"

definition prefixOf :: "string \<Rightarrow> string" where
  "prefixOf input =
     (case IndexSlash (drop 5 input) of None \<Rightarrow> [] | Some i \<Rightarrow> drop (i + 1) (drop 5 input))"

definition openS3 :: "listing \<Rightarrow> string \<Rightarrow> PluginInstance \<Rightarrow> openError + PluginInstance" where
  "openS3 w input oCtx0 =
     (let oCtx = oCtx0\<lparr>openMode := s3Mode\<rparr> in
      if S3DownloadConcurrency (config oCtx) < 1 then
        Inl (InvalidConcurrency (S3DownloadConcurrency (config oCtx)))
      else if length input < 5 then Inl (OpenPanic ''slice bounds out of range'')
      else
        (let bkt = bucketOf input; pfx = prefixOf input
         in case initS3 (oCtx\<lparr>s3 := (s3 oCtx)\<lparr>bucket := bkt\<rparr>\<rparr>) of
              Inl e \<Rightarrow> Inl (OpenPanic ''makeslice: len out of range'')
            | Inr oCtx1 \<Rightarrow>
                (case ParseInterval w (S3Interval (config oCtx1)) of
                   Inl err \<Rightarrow> Inl (InvalidInterval (S3Interval (config oCtx1)) err)
                 | Inr (startTime, endTime) \<Rightarrow>
                     (if \<not> accountListRE (S3AccountList (config oCtx1)) then
                        Inl (InvalidAccountList (S3AccountList (config oCtx1)))
                      else
                        (case intervalPrefixes w bkt pfx (S3AccountList (config oCtx1)) of
                           Inl e \<Rightarrow> Inl e
                         | Inr intervalPrefixList \<Rightarrow>
                             (case windowTS (regionParams w bkt startTime intervalPrefixList)
                                     pfx startTime endTime of
                                Inl e \<Rightarrow> Inl e
                              | Inr (inputParams, startTS, endTS) \<Rightarrow>
                                  (case chunkListOrigin inputParams
                                          (S3DownloadConcurrency (config oCtx1)) of
                                     Inl e \<Rightarrow> Inl e
                                   | Inr chunks \<Rightarrow>
                                       (case listChunks w bkt startTS endTS chunks
                                               (files oCtx1) of
                                          Inl e \<Rightarrow> Inl e
                                        | Inr fs \<Rightarrow> Inr (oCtx1\<lparr>files := fs\<rparr>)))))))))"

text \<open>The keys of the pages of a listing, up to the first page that fails.\<close>

fun pagesKeys :: "(string + string list) list \<Rightarrow> string list" where
  "pagesKeys [] = []"
| "pagesKeys (Inl err # pages) = []"
| "pagesKeys (Inr contents # pages) = contents @ pagesKeys pages"

subsection \<open>Account identifiers and account lists\<close>

text \<open>A twelve-digit account identifier, and the identifier of an organization
  after its \<open>o-\<close>.\<close>

definition isAccountId :: "string \<Rightarrow> bool" where
  "isAccountId a = (length a = 12 \<and> list_all isDigit a)"

definition isOrgId :: "string \<Rightarrow> bool" where
  "isOrgId org = (10 \<le> length org \<and> length org \<le> 32 \<and> list_all isLowerAlnum org)"

text \<open>An entry of an account list: the identifier between any number of spaces.\<close>

fun padded :: "nat \<times> string \<times> nat \<Rightarrow> string" where
  "padded (l, a, r) = replicate l (CHR '' '') @ a @ replicate r (CHR '' '')"

fun accountOf :: "nat \<times> string \<times> nat \<Rightarrow> string" where
  "accountOf (l, a, r) = a"

section \<open>Concrete sessions and worlds\<close>

text \<open>
  A world in which every call succeeds and returns nothing, and sessions in their
  initial state. The theorems below are instantiated at variations of them.
\<close>

definition quietWorld :: world where
  "quietWorld =
     \<lparr>ReceiveMessage = Inr [], DeleteMessage = None,
      Download = (\<lambda>bkt key. Inr []), ReadFile = (\<lambda>path. Inr []),
      evtWrite = (\<lambda>data. (length data, None)),
      gzipReadAll = (\<lambda>bytes. None), fastjsonParse = (\<lambda>s. None),
      timeParse = (\<lambda>s. None),
      jsonUnmarshalMap = (\<lambda>s. Inl ''unexpected end of JSON input''),
      jsonUnmarshalS3Event = (\<lambda>s. Inl ''unexpected end of JSON input''),
      jsonUnmarshalSNS = (\<lambda>s. Inl ''unexpected end of JSON input'')\<rparr>"

definition exampleConfig :: PluginConfig where
  "exampleConfig =
     \<lparr>S3DownloadConcurrency = 2, SQSDelete = True, UseS3SNS = False, S3AccountList = [],
      S3Interval = []\<rparr>"

definition emptyS3 :: s3State where
  "emptyS3 =
     \<lparr>bucket = [], clientInit = False, DownloadBufs = [],
      lastDownloadedFileNum = 0, nFilledBufs = 0, curBuf = 0\<rparr>"

definition newSession :: "OpenMode \<Rightarrow> fileInfo list \<Rightarrow> PluginInstance" where
  "newSession mode fs =
     \<lparr>openMode = mode, config = exampleConfig, files = fs, curFileNum = 0,
      evtJSONStrings = [], evtJSONListPos = 0, s3 = emptyS3\<rparr>"

text \<open>A world whose file read gives bytes that are not a gzip stream.\<close>

definition corruptWorld :: world where
  "corruptWorld = quietWorld\<lparr>ReadFile := (\<lambda>path. Inr ''not a gzip stream'')\<rparr>"

text \<open>A world whose JSON parser finds an \<open>eventTime\<close> and no \<open>eventType\<close>.\<close>

definition untypedWorld :: world where
  "untypedWorld =
     quietWorld\<lparr>fastjsonParse := (\<lambda>s. Some (JObject [(''eventTime'', JString ''2023-01-01T00:00:00Z'')])),
                timeParse := (\<lambda>s. Some 1672531200000000000)\<rparr>"

text \<open>Worlds in which the file read, or every download, fails.\<close>

definition readFailWorld :: world where
  "readFailWorld = quietWorld\<lparr>ReadFile := (\<lambda>path. Inl ''permission denied'')\<rparr>"

definition downloadFailWorld :: world where
  "downloadFailWorld = quietWorld\<lparr>Download := (\<lambda>bkt key. Inl ''RequestTimeout'')\<rparr>"

text \<open>A world whose downloads give a body that names the object.\<close>

definition bodyWorld :: world where
  "bodyWorld = quietWorld\<lparr>Download := (\<lambda>bkt key. Inr (''body of '' @ key))\<rparr>"

text \<open>A world whose queue delivers a message that is not JSON.\<close>

definition garbledWorld :: world where
  "garbledWorld =
     quietWorld\<lparr>ReceiveMessage := Inr [''not json''],
                jsonUnmarshalMap := (\<lambda>s. Inl ''invalid character'')\<rparr>"

text \<open>A session on a bucket, opened with two download buffers, with three files listed.\<close>

definition bucketSession :: PluginInstance where
  "bucketSession =
     (newSession s3Mode [mkFileInfo ''a.json'', mkFileInfo ''b.json'', mkFileInfo ''c.json''])
       \<lparr>s3 := emptyS3\<lparr>bucket := ''trail'', clientInit := True, DownloadBufs := [[], []]\<rparr>\<rparr>"

text \<open>
  A listing world for a bucket whose prefix has no region prefixes: the interval
  is the first day of 2023, and the one page of keys has a CloudTrail file of
  March 2023 and a text file.
\<close>

definition januaryFirst :: gotime where
  "januaryFirst =
     \<lparr>IsZero = False, dayPath = ''2023/01/01/'', stamp = ''20230101T0000'',
      simple = ''2023-01-01T00:00:00Z''\<rparr>"

definition januarySecond :: gotime where
  "januarySecond =
     \<lparr>IsZero = False, dayPath = ''2023/01/02/'', stamp = ''20230102T0000'',
      simple = ''2023-01-02T00:00:00Z''\<rparr>"

definition marchKey :: string where
  "marchKey = ''logs/1_CloudTrail_us-east-1_20230301T0000Z_a.json.gz''"

definition flatListing :: listing where
  "flatListing =
     \<lparr>ParseInterval = (\<lambda>s. Inr (januaryFirst, januarySecond)),
      ListAccounts = (\<lambda>bkt pfx. []),
      ListRegions = (\<lambda>bkt pfx. Inr []),
      ListObjects = (\<lambda>bkt origin. [Inr [marchKey, ''logs/readme.txt'']]),
      Schedule = (\<lambda>chunk. [])\<rparr>"

definition januaryKey :: string where
  "januaryKey = ''logs/1_CloudTrail_us-east-1_20230101T0000Z_a.json.gz''"

text \<open>
  A listing world for the trail of one account with two region prefixes: the
  interval has no start and ends with the first day of 2023, each region has one
  page with a CloudTrail file of March 2023, the first with a text file too, and
  the scheduler lets the second listing take the first step.
\<close>

definition noTime :: gotime where
  "noTime =
     \<lparr>IsZero = True, dayPath = ''0001/01/01/'', stamp = ''00010101T0000'',
      simple = ''0001-01-01T00:00:00Z''\<rparr>"

definition euPrefix :: string where
  "euPrefix = ''logs/AWSLogs/123456789012/CloudTrail/eu-west-1/''"

definition usPrefix :: string where
  "usPrefix = ''logs/AWSLogs/123456789012/CloudTrail/us-east-1/''"

definition euKey :: string where
  "euKey = euPrefix @ ''2023/03/01/123456789012_CloudTrail_eu-west-1_20230301T0000Z_a.json.gz''"

definition usKey :: string where
  "usKey = usPrefix @ ''2023/03/01/123456789012_CloudTrail_us-east-1_20230301T0000Z_b.json''"

definition regionListing :: listing where
  "regionListing =
     \<lparr>ParseInterval = (\<lambda>s. Inr (noTime, januarySecond)),
      ListAccounts = (\<lambda>bkt pfx. []),
      ListRegions = (\<lambda>bkt pfx. Inr [euPrefix, usPrefix]),
      ListObjects = (\<lambda>bkt origin. if prefix origin = euPrefix then [Inr [euKey, euPrefix @ ''readme.txt'']]
                                     else if prefix origin = usPrefix then [Inr [usKey]]
                                     else []),
      Schedule = (\<lambda>chunk. [1, 0])\<rparr>"

text \<open>
  A session on a bucket with four compressed files listed, a world in which only
  the download of the first succeeds, and a world in which every download
  succeeds; no body is a gzip stream.
\<close>

definition gzSession :: PluginInstance where
  "gzSession =
     (newSession s3Mode [mkFileInfo ''a.json.gz'', mkFileInfo ''b.json.gz'',
                         mkFileInfo ''c.json.gz'', mkFileInfo ''d.json.gz''])
       \<lparr>s3 := emptyS3\<lparr>bucket := ''trail'', clientInit := True, DownloadBufs := [[], []]\<rparr>\<rparr>"

definition brokenBodyWorld :: world where
  "brokenBodyWorld = quietWorld\<lparr>Download := (\<lambda>bkt key. Inr (''broken body of '' @ key))\<rparr>"

definition firstOnlyWorld :: world where
  "firstOnlyWorld =
     quietWorld\<lparr>Download := (\<lambda>bkt key. if key = ''a.json.gz'' then Inr (''broken body of '' @ key)
                                        else Inl ''RequestTimeout'')\<rparr>"

section \<open>Properties of the record splitter\<close>

lemma slice_mid: "slice (pre @ xs @ rest) (length pre) (length pre + length xs) = xs"
  by (simp add: slice_def)

lemma ers_loop_closes:
  "closes d r \<Longrightarrow> js = pre @ r @ rest \<Longrightarrow> rest \<noteq> [] \<Longrightarrow>
   ers_loop js (r @ rest) (length pre) (2 + int d) es res
     = ers_loop js rest (length pre + length r) 1 es
         (res @ [slice js es (length pre + length r)])"
proof (induction r arbitrary: d pre)
  case Nil
  then show ?case by simp
next
  case (Cons c cs)
  have js: "js = (pre @ [c]) @ cs @ rest" using Cons.prems(2) by simp
  have len: "length (pre @ [c]) = length pre + 1" by simp
  show ?case
  proof (cases "c = CHR ''{''")
    case True
    with Cons.prems(1) have "closes (Suc d) cs" by simp
    from Cons.IH [OF this js Cons.prems(3)] True show ?thesis
      by (simp add: add.commute add.left_commute)
  next
    case nopen: False
    show ?thesis
    proof (cases "c = CHR ''}''")
      case True
      show ?thesis
      proof (cases d)
        case 0
        with Cons.prems(1) True nopen have "cs = []" by simp
        with True nopen 0 Cons.prems(2,3) show ?thesis
          by (cases rest) simp_all
      next
        case (Suc d')
        with Cons.prems(1) True nopen have "closes d' cs" by simp
        from Cons.IH [OF this js Cons.prems(3)] True nopen Suc show ?thesis
          by (simp add: add.commute add.left_commute)
      qed
    next
      case False
      with Cons.prems(1) nopen have "closes d cs" by simp
      from Cons.IH [OF this js Cons.prems(3)] False nopen show ?thesis
        by (simp add: add.commute add.left_commute)
    qed
  qed
qed

lemma ers_loop_object:
  assumes "brace_object obj" and "js = pre @ obj @ rest" and "rest \<noteq> []"
  shows "ers_loop js (obj @ rest) (length pre) 1 es res
           = ers_loop js rest (length pre + length obj) 1 (length pre) (res @ [obj])"
proof -
  from assms(1) obtain r where obj: "obj = CHR ''{'' # r" and cl: "closes 0 r"
    by (cases obj) auto
  have js: "js = (pre @ ''{'') @ r @ rest" using assms(2) obj by simp
  have "ers_loop js (r @ rest) (length (pre @ ''{'')) (2 + int 0) (length pre) res
          = ers_loop js rest (length (pre @ ''{'') + length r) 1 (length pre)
              (res @ [slice js (length pre) (length (pre @ ''{'') + length r)])"
    by (rule ers_loop_closes [OF cl js assms(3)])
  moreover have "slice js (length pre) (length (pre @ ''{'') + length r) = obj"
    using slice_mid [of pre obj rest] assms(2) obj by simp
  ultimately show ?thesis using obj by simp
qed

lemma ers_loop_objects:
  "\<forall>obj \<in> set objs. brace_object obj \<Longrightarrow> js = pre @ join_comma objs @ '']}'' \<Longrightarrow>
   ers_loop js (join_comma objs @ '']}'') (length pre) 1 es res = res @ objs"
proof (induction objs arbitrary: pre es res rule: join_comma.induct)
  case 1
  then show ?case by simp
next
  case (2 x)
  have "ers_loop js (x @ '']}'') (length pre) 1 es res
          = ers_loop js '']}'' (length pre + length x) 1 (length pre) (res @ [x])"
    by (rule ers_loop_object) (use 2 in simp_all)
  then show ?case by simp
next
  case (3 x y ys)
  have js: "js = pre @ x @ ('','' @ join_comma (y # ys) @ '']}'')"
    using "3.prems"(2) by simp
  have step: "ers_loop js (x @ ('','' @ join_comma (y # ys) @ '']}'')) (length pre) 1 es res
          = ers_loop js ('','' @ join_comma (y # ys) @ '']}'') (length pre + length x) 1
              (length pre) (res @ [x])"
    by (rule ers_loop_object [OF _ js]) (use "3.prems"(1) in simp_all)
  have js': "js = (pre @ x @ '','') @ join_comma (y # ys) @ '']}''"
    using "3.prems"(2) by simp
  have "ers_loop js (join_comma (y # ys) @ '']}'') (length (pre @ x @ '','')) 1 (length pre)
          (res @ [x]) = (res @ [x]) @ y # ys"
    by (rule "3.IH" [OF _ js']) (use "3.prems"(1) in simp)
  with step show ?case by simp
qed

text \<open>
  C1, as amended. For an envelope \<open>{"Records":[obj_1,...,obj_K]}\<close> whose inner objects
  each run from an opening brace to the closing brace that matches it when braces
  are counted bytewise (braces inside string literals included), the record splitter
  appends exactly the K inner objects to the result list, byte for byte and in
  source order; with no inner object nothing is appended.
\<close>

theorem extractRecordStrings_envelope:
  "\<forall>obj \<in> set objs. brace_object obj \<Longrightarrow>
   extractRecordStrings (envelope objs) res = res @ objs"
proof -
  assume wf: "\<forall>obj \<in> set objs. brace_object obj"
  define pre where "pre = ''{'' @ [CHR 0x22] @ ''Records'' @ [CHR 0x22] @ '':[''"
  define js where "js = envelope objs"
  have js: "js = pre @ join_comma objs @ '']}''"
    by (simp add: js_def pre_def envelope_def)
  have "ers_loop js (join_comma objs @ '']}'') (length pre) 1 0 res = res @ objs"
    by (rule ers_loop_objects [OF wf js])
  moreover have "ers_loop js js 0 0 0 res
      = ers_loop js (join_comma objs @ '']}'') (length pre) 1 0 res"
    by (subst (2) js) (simp add: pre_def)
  ultimately show ?thesis by (simp add: extractRecordStrings_def js_def)
qed

theorem extractRecordStrings_envelope_witness:
  \<open>brace_object ''{"eventTime":"t","x":{"y":1}}'' \<and> brace_object ''{}''
   \<and> extractRecordStrings ''{"Records":[{"eventTime":"t","x":{"y":1}},{}]}'' []
       = [''{"eventTime":"t","x":{"y":1}}'', ''{}'']\<close>
  using extractRecordStrings_envelope
    [of \<open>[''{"eventTime":"t","x":{"y":1}}'', ''{}'']\<close> \<open>[]\<close>]
  by (simp add: envelope_def)

text \<open>
  The claim as it was stated fails for an inner object with a closing brace inside
  a string literal: the envelope is well-formed JSON with one record, and the range
  that the splitter appends ends at the brace inside the string.
\<close>

theorem brace_in_string_splits_early:
  \<open>extractRecordStrings
     ''{"Records":[{"eventTime":"2023-01-01T00:00:00Z","errorMessage":"unexpected }"}]}'' []
     = [''{"eventTime":"2023-01-01T00:00:00Z","errorMessage":"unexpected }'']
   \<and> extractRecordStrings
     (envelope [''{"eventTime":"2023-01-01T00:00:00Z","errorMessage":"unexpected }"}'']) []
     \<noteq> [''{"eventTime":"2023-01-01T00:00:00Z","errorMessage":"unexpected }"}'']\<close>
  by (simp add: extractRecordStrings_def envelope_def slice_def)

section \<open>Properties of a pull\<close>

subsection \<open>What each step can return, and what it leaves alone\<close>

lemma initS3_cases:
  "initS3 p = Inl e \<Longrightarrow> \<exists>m. e = Panic m"
  by (auto simp: initS3_def split: if_splits)

lemma keeps_refl [simp]: "keeps p p"
  by (simp add: keeps_def)

lemma keeps_trans: "keeps p q \<Longrightarrow> keeps q r \<Longrightarrow> keeps p r"
  by (simp add: keeps_def)

lemma keeps_s3 [simp]: "keeps p (q\<lparr>s3 := x\<rparr>) = keeps p q"
  by (simp add: keeps_def)

lemma keeps_files [simp]: "keeps p (q\<lparr>files := x\<rparr>) = keeps p q"
  by (simp add: keeps_def)

lemma keeps_s3_left [simp]: "keeps (q\<lparr>s3 := x\<rparr>) p = keeps q p"
  by (simp add: keeps_def)

lemma keeps_files_left [simp]: "keeps (q\<lparr>files := x\<rparr>) p = keeps q p"
  by (simp add: keeps_def)

lemma initS3_keeps: "initS3 p = Inr p' \<Longrightarrow> keeps p p'"
  by (auto simp: initS3_def split: if_splits)

lemma s3EventRecords_error:
  "s3EventRecords rs i b p = (Inl e, p') \<Longrightarrow> \<exists>m. e = Panic m"
proof (induction rs i b p rule: s3EventRecords.induct)
  case (1 s3Init lastBucket oCtx)
  then show ?case by simp
next
  case (2 bucketName key records s3Init lastBucket oCtx)
  then show ?case
    by (auto simp: Let_def split: if_splits sum.splits dest: initS3_cases)
qed

lemma s3EventRecords_keeps:
  "s3EventRecords rs i b p = (r, p') \<Longrightarrow> keeps p p'"
proof (induction rs i b p rule: s3EventRecords.induct)
  case (1 s3Init lastBucket oCtx)
  then show ?case by simp
next
  case (2 bucketName key records s3Init lastBucket oCtx)
  show ?case
  proof (cases "\<not> s3Init \<or> bucketName \<noteq> lastBucket")
    case False
    with 2 show ?thesis by simp
  next
    case change: True
    show ?thesis
    proof (cases s3Init)
      case True
      with change 2 show ?thesis by (simp add: Let_def)
    next
      case False
      show ?thesis
      proof (cases "initS3 (oCtx\<lparr>s3 := (s3 oCtx)\<lparr>bucket := bucketName\<rparr>\<rparr>)")
        case (Inl e)
        with False "2.prems" show ?thesis by (auto simp: Let_def)
      next
        case (Inr oCtx2)
        from initS3_keeps [OF Inr] have k: "keeps oCtx oCtx2" by simp
        from Inr False "2.prems" "2.IH"(1) [OF change refl _ Inr]
        have "keeps oCtx2 p'" by (simp add: Let_def)
        with k show ?thesis by (rule keeps_trans)
      qed
    qed
  qed
qed

lemma sqsNotification_error:
  "sqsNotification w m p = (Inl e, p') \<Longrightarrow> e \<noteq> ErrEOF \<and> e \<noteq> ErrTimeout"
  by (auto simp: sqsNotification_def Let_def
      split: option.splits json.splits if_splits sum.splits
      dest: s3EventRecords_error initS3_cases)

lemma sqsNotification_keeps:
  "sqsNotification w m p = (r, p') \<Longrightarrow> keeps p p'"
  by (auto simp: sqsNotification_def Let_def
      split: option.splits json.splits if_splits sum.splits
      dest!: s3EventRecords_keeps initS3_keeps)

lemma getMoreSQSFiles_error:
  "getMoreSQSFiles w p = (Inl e, p') \<Longrightarrow> e \<noteq> ErrEOF \<and> e \<noteq> ErrTimeout"
  by (auto simp: getMoreSQSFiles_def
      split: option.splits json.splits if_splits sum.splits list.splits
      dest: sqsNotification_error)

lemma getMoreSQSFiles_keeps:
  "getMoreSQSFiles w p = (r, p') \<Longrightarrow> keeps p p'"
  by (auto simp: getMoreSQSFiles_def
      split: option.splits json.splits if_splits sum.splits list.splits
      dest!: sqsNotification_keeps)

lemma s3Download_error:
  "s3Download w b fs j bufs errs = Inl e \<Longrightarrow> \<exists>m. e = Panic m"
  by (induction fs arbitrary: j bufs errs) (auto split: sum.splits if_splits)

lemma readNextFileS3_error:
  "readNextFileS3 w p = (Inl e, p') \<Longrightarrow> e \<noteq> ErrEOF \<and> e \<noteq> ErrTimeout"
  by (auto simp: readNextFileS3_def Let_def
      split: option.splits if_splits sum.splits list.splits prod.splits
      dest: s3Download_error)

lemma readNextFileS3_keeps:
  "readNextFileS3 w p = (r, p') \<Longrightarrow> keeps p p' \<and> files p' = files p"
  by (auto simp: readNextFileS3_def Let_def
      split: option.splits if_splits sum.splits list.splits prod.splits)

lemma readFile_error:
  "readFile w f p = (Inl e, p') \<Longrightarrow> e \<noteq> ErrEOF \<and> e \<noteq> ErrTimeout"
  by (auto simp: readFile_def split: OpenMode.splits sum.splits dest: readNextFileS3_error)

lemma readFile_keeps:
  "readFile w f p = (r, p') \<Longrightarrow> keeps p p' \<and> files p' = files p"
  by (auto simp: readFile_def split: OpenMode.splits sum.splits dest: readNextFileS3_keeps)

lemma openNextFile_error:
  "openNextFile w p = (Inl e, p') \<Longrightarrow> e \<noteq> ErrEOF"
  by (auto simp: openNextFile_def
      split: option.splits if_splits sum.splits prod.splits
      dest: readFile_error)

lemma emitRecord_error:
  "emitRecord w p = (Inl e, p') \<Longrightarrow> e \<noteq> ErrEOF"
  by (auto simp: emitRecord_def Let_def
      split: option.splits if_splits sum.splits prod.splits)

lemma moreFiles_EOF:
  "moreFiles w p = (Inl ErrEOF, p') \<Longrightarrow>
     p' = p \<and> openMode p \<noteq> sqsMode \<and> curFileNum p \<ge> of_nat (length (files p))"
  by (auto simp: moreFiles_def split: if_splits sum.splits prod.splits
      dest: getMoreSQSFiles_error)

lemma refill_EOF:
  "refill w p = (Inl ErrEOF, p') \<Longrightarrow>
     p' = p \<and> openMode p \<noteq> sqsMode \<and> curFileNum p \<ge> of_nat (length (files p))
     \<and> evtJSONListPos p \<ge> int (length (evtJSONStrings p))"
  by (auto simp: refill_def split: if_splits sum.splits prod.splits
      dest: moreFiles_EOF openNextFile_error)

lemma nextEvent_EOF:
  "nextEvent w p = (Inl ErrEOF, p') \<Longrightarrow>
     p' = p \<and> openMode p \<noteq> sqsMode \<and> curFileNum p \<ge> of_nat (length (files p))
     \<and> evtJSONListPos p \<ge> int (length (evtJSONStrings p))"
  by (auto simp: nextEvent_def split: if_splits sum.splits prod.splits
      dest: refill_EOF emitRecord_error)

lemma nextEvent_EOF_again:
  assumes "openMode p \<noteq> sqsMode" "curFileNum p \<ge> of_nat (length (files p))"
     "evtJSONListPos p \<ge> int (length (evtJSONStrings p))"
  shows "nextEvent w p = (Inl ErrEOF, p)"
  using assms by (simp add: nextEvent_def refill_def moreFiles_def)

lemma pulls_EOF:
  assumes "openMode p \<noteq> sqsMode" "curFileNum p \<ge> of_nat (length (files p))"
     "evtJSONListPos p \<ge> int (length (evtJSONStrings p))"
  shows "pulls ws p = (replicate (length ws) (Inl ErrEOF), p)"
  using assms by (induction ws) (simp_all add: nextEvent_EOF_again)

subsection \<open>The file cursor\<close>

lemma word32_succ: "(c :: 32 word) < d \<Longrightarrow> unat (c + 1) = unat c + 1"
  by (metis (no_types, lifting) add.commute add_cancel_left_right inc_i
    inc_le unat_plus_simple unsigned_0 unsigned_1 word_gt_0)

lemma unat_of_nat_le: "unat (of_nat n :: 32 word) \<le> n"
  by (metis le_unat_uoi linorder_le_cases)

lemma index_in_range:
  "(c :: 32 word) < of_nat (length xs) \<Longrightarrow> index xs (int (unat c)) = Some (xs ! unat c)"
proof -
  assume "c < of_nat (length xs)"
  then have "unat c < unat (of_nat (length xs) :: 32 word)" by (simp add: word_less_nat_alt)
  with unat_of_nat_le [of "length xs"] have "unat c < length xs" by simp
  then have "int (unat c) < int (length xs)" by (simp only: of_nat_less_iff)
  then show ?thesis by (simp add: index_def)
qed

lemma moreFiles_ok:
  "moreFiles w p = (Inr u, p1) \<Longrightarrow> keeps p p1 \<and> curFileNum p1 < of_nat (length (files p1))"
  by (auto simp: moreFiles_def not_le split: if_splits prod.splits sum.splits
      dest: getMoreSQSFiles_keeps)

lemma moreFiles_keeps: "moreFiles w p = (r, p1) \<Longrightarrow> keeps p p1"
  by (auto simp: moreFiles_def split: if_splits prod.splits sum.splits
      dest: getMoreSQSFiles_keeps)

lemma openNextFile_cursor:
  assumes "curFileNum p < of_nat (length (files p))" and "openNextFile w p = (r, p')"
  shows "unat (curFileNum p') = unat (curFileNum p) + 1"
proof -
  let ?p1 = "p\<lparr>curFileNum := curFileNum p + 1\<rparr>"
  obtain r1 p2 where rf: "readFile w (files p ! unat (curFileNum p)) ?p1 = (r1, p2)"
    by (cases "readFile w (files p ! unat (curFileNum p)) ?p1")
  from readFile_keeps [OF rf] have "curFileNum p2 = curFileNum p + 1"
    by (simp add: keeps_def)
  moreover from assms(2) rf index_in_range [OF assms(1)]
  have "curFileNum p' = curFileNum p2"
    by (auto simp: openNextFile_def split: sum.splits option.splits)
  ultimately show ?thesis using word32_succ [OF assms(1)] by simp
qed

lemma emitRecord_cursor: "emitRecord w p = (r, p') \<Longrightarrow> curFileNum p' = curFileNum p"
  by (auto simp: emitRecord_def Let_def split: if_splits option.splits prod.splits)

lemma refill_cursor:
  assumes "refill w p = (r, p')"
  shows "unat (curFileNum p) \<le> unat (curFileNum p')"
proof (cases "evtJSONListPos p \<ge> int (length (evtJSONStrings p))")
  case False
  with assms show ?thesis by (simp add: refill_def)
next
  case True
  obtain r1 p1 where m: "moreFiles w p = (r1, p1)" by (cases "moreFiles w p")
  from moreFiles_keeps [OF m] have c: "curFileNum p1 = curFileNum p" by (simp add: keeps_def)
  show ?thesis
  proof (cases r1)
    case (Inl e)
    with assms True m c show ?thesis by (simp add: refill_def)
  next
    case (Inr u)
    with assms True m have o: "openNextFile w p1 = (r, p')" by (simp add: refill_def)
    from moreFiles_ok m Inr have "curFileNum p1 < of_nat (length (files p1))" by blast
    from openNextFile_cursor [OF this o] c show ?thesis by simp
  qed
qed

lemma nextEvent_cursor:
  assumes "nextEvent w p = (r, p')"
  shows "unat (curFileNum p) \<le> unat (curFileNum p')"
proof -
  obtain r1 p1 where f: "refill w p = (r1, p1)" by (cases "refill w p")
  from refill_cursor [OF f] have le: "unat (curFileNum p) \<le> unat (curFileNum p1)" .
  show ?thesis
  proof (cases r1)
    case (Inl e)
    with assms f le show ?thesis by (simp add: nextEvent_def)
  next
    case (Inr u)
    with assms f have "emitRecord w p1 = (r, p')" by (simp add: nextEvent_def)
    from emitRecord_cursor [OF this] le show ?thesis by simp
  qed
qed

lemma pulls_cursor: "unat (curFileNum p) \<le> unat (curFileNum (snd (pulls ws p)))"
proof (induction ws arbitrary: p)
  case Nil
  then show ?case by simp
next
  case (Cons w ws)
  obtain r p1 where n: "nextEvent w p = (r, p1)" by (cases "nextEvent w p")
  from nextEvent_cursor [OF n] Cons.IH [of p1] n show ?case
    by (cases "pulls ws p1") simp
qed

lemma corrupt_gzip_refill:
  assumes "evtJSONListPos p \<ge> int (length (evtJSONStrings p))"
    and "moreFiles w p = (Inr u, p1)"
    and "index (files p1) (int (unat (curFileNum p1))) = Some file"
    and "isCompressed file"
    and "readFile w file (p1\<lparr>curFileNum := curFileNum p1 + 1\<rparr>) = (Inr bytes, p2)"
    and "gzipReadAll w bytes = None"
  shows "refill w p = (Inl ErrTimeout, p2)"
  using assms by (simp add: refill_def openNextFile_def)

lemma empty_poll_Timeout:
  assumes "openMode p = sqsMode" "evtJSONListPos p \<ge> int (length (evtJSONStrings p))"
    "curFileNum p \<ge> of_nat (length (files p))"
    "getMoreSQSFiles w p = (Inr u, p1)" "files p1 = files p"
  shows "nextEvent w p = (Inl ErrTimeout, p1)"
proof -
  from getMoreSQSFiles_keeps [OF assms(4)] have "curFileNum p1 = curFileNum p"
    by (simp add: keeps_def)
  with assms show ?thesis by (simp add: nextEvent_def refill_def moreFiles_def)
qed

subsection \<open>End of stream\<close>

text \<open>
  C3. In a session that does not read from a queue, once a pull has returned the
  end of the stream, the session is as it was before that pull, and every later
  pull, in whatever world, returns the end of the stream again and changes nothing.
\<close>

theorem end_of_stream_terminal:
  assumes "openMode p \<noteq> sqsMode" and "nextEvent w p = (Inl ErrEOF, p')"
  shows "p' = p \<and> pulls ws p' = (replicate (length ws) (Inl ErrEOF), p')"
proof -
  from nextEvent_EOF [OF assms(2)] have p: "p' = p"
    and c: "curFileNum p \<ge> of_nat (length (files p))"
    and e: "evtJSONListPos p \<ge> int (length (evtJSONStrings p))" by simp_all
  from pulls_EOF [OF assms(1) c e] p show ?thesis by simp
qed

theorem end_of_stream_terminal_witness:
  "openMode ((newSession fileMode [mkFileInfo ''a.json''])\<lparr>curFileNum := 1\<rparr>) \<noteq> sqsMode
   \<and> nextEvent quietWorld ((newSession fileMode [mkFileInfo ''a.json''])\<lparr>curFileNum := 1\<rparr>)
       = (Inl ErrEOF, (newSession fileMode [mkFileInfo ''a.json''])\<lparr>curFileNum := 1\<rparr>)
   \<and> pulls [quietWorld, corruptWorld] ((newSession fileMode [mkFileInfo ''a.json''])\<lparr>curFileNum := 1\<rparr>)
       = ([Inl ErrEOF, Inl ErrEOF], (newSession fileMode [mkFileInfo ''a.json''])\<lparr>curFileNum := 1\<rparr>)"
  using end_of_stream_terminal
    [of "(newSession fileMode [mkFileInfo ''a.json''])\<lparr>curFileNum := 1\<rparr>" quietWorld
        "(newSession fileMode [mkFileInfo ''a.json''])\<lparr>curFileNum := 1\<rparr>"
        "[quietWorld, corruptWorld]"]
  by (simp add: newSession_def nextEvent_def refill_def moreFiles_def)

subsection \<open>Empty polls of the queue\<close>

text \<open>
  C4. In a session that reads from a queue, a pull that has to poll, and whose poll
  succeeds without bringing a new file, returns the retry-later result and not the
  end of the stream; this holds for every pull of a run of such polls, however long.
\<close>

theorem queue_empty_polls_retry:
  assumes "openMode p = sqsMode" "evtJSONListPos p \<ge> int (length (evtJSONStrings p))"
    "curFileNum p \<ge> of_nat (length (files p))" "emptyPolls ws p"
  shows "fst (pulls ws p) = replicate (length ws) (Inl ErrTimeout)
         \<and> Inl ErrEOF \<notin> set (fst (pulls ws p))"
proof -
  have "fst (pulls ws p) = replicate (length ws) (Inl ErrTimeout)"
    using assms
  proof (induction ws arbitrary: p)
    case Nil
    then show ?case by simp
  next
    case (Cons w ws)
    from Cons.prems(4) obtain u p1 where g: "getMoreSQSFiles w p = (Inr u, p1)"
      and f: "files p1 = files p" and rest: "emptyPolls ws p1"
      by (auto split: prod.splits sum.splits)
    from getMoreSQSFiles_keeps [OF g] have k: "keeps p p1" .
    have n: "nextEvent w p = (Inl ErrTimeout, p1)"
      by (rule empty_poll_Timeout [OF Cons.prems(1-3) g f])
    have "fst (pulls ws p1) = replicate (length ws) (Inl ErrTimeout)"
      using Cons.prems(1-3) k f rest by (intro Cons.IH) (simp_all add: keeps_def)
    with n show ?case by (cases "pulls ws p1") simp
  qed
  then show ?thesis by simp
qed

theorem queue_empty_polls_retry_witness:
  "openMode (newSession sqsMode []) = sqsMode
   \<and> evtJSONListPos (newSession sqsMode []) \<ge> int (length (evtJSONStrings (newSession sqsMode [])))
   \<and> curFileNum (newSession sqsMode []) \<ge> of_nat (length (files (newSession sqsMode [])))
   \<and> emptyPolls [quietWorld, quietWorld, quietWorld] (newSession sqsMode [])
   \<and> fst (pulls [quietWorld, quietWorld, quietWorld] (newSession sqsMode []))
       = [Inl ErrTimeout, Inl ErrTimeout, Inl ErrTimeout]"
  using queue_empty_polls_retry
    [of "newSession sqsMode []" "[quietWorld, quietWorld, quietWorld]"]
  by (simp add: newSession_def getMoreSQSFiles_def quietWorld_def)

subsection \<open>A corrupt compressed file\<close>

text \<open>
  A pull that opens a file flagged as compressed, and reads bytes that do not
  inflate, returns the retry-later result, and the file cursor is then one past
  that entry of the file list and stays past it.
\<close>

lemma corrupt_gzip_cursor:
  assumes "evtJSONListPos p \<ge> int (length (evtJSONStrings p))"
    and "moreFiles w p = (Inr u, p1)"
    and "index (files p1) (int (unat (curFileNum p1))) = Some fi"
    and "isCompressed fi"
    and "readFile w fi (p1\<lparr>curFileNum := curFileNum p1 + 1\<rparr>) = (Inr bytes, p2)"
    and "gzipReadAll w bytes = None"
  shows "nextEvent w p = (Inl ErrTimeout, p2)
       \<and> unat (curFileNum p2) = unat (curFileNum p) + 1
       \<and> unat (curFileNum p) < unat (curFileNum (snd (pulls ws p2)))"
proof -
  have r: "refill w p = (Inl ErrTimeout, p2)" by (rule corrupt_gzip_refill [OF assms])
  then have n: "nextEvent w p = (Inl ErrTimeout, p2)" by (simp add: nextEvent_def)
  from moreFiles_ok [OF assms(2)] have lt: "curFileNum p1 < of_nat (length (files p1))"
    by simp
  from moreFiles_ok [OF assms(2)] have k: "curFileNum p1 = curFileNum p"
    by (simp add: keeps_def)
  from readFile_keeps [OF assms(5)] have "curFileNum p2 = curFileNum p1 + 1"
    by (simp add: keeps_def)
  with word32_succ [OF lt] k have c: "unat (curFileNum p2) = unat (curFileNum p) + 1" by simp
  from pulls_cursor [of p2 ws] c
  have "unat (curFileNum p) < unat (curFileNum (snd (pulls ws p2)))" by simp
  with n c show ?thesis by simp
qed

text \<open>
  C8. A pull that opens a file flagged as compressed, whose bytes do not inflate,
  returns the retry-later result with the file cursor past that file, so that no
  later pull opens the same bad file again. A session on a bucket does otherwise
  after a batch of downloads of which one failed: in a bucket or queue session
  the bytes are not those of the entry at the file cursor but those of the next
  download buffer, and \<open>readNextFileS3\<close> has set \<open>nFilledBufs\<close> (line 593) and
  returns the error (line 602) before it moves \<open>lastDownloadedFileNum\<close> (line 606),
  while \<open>nextEvent\<close> has moved \<open>curFileNum\<close> already (line 667). With four listed
  files, none a gzip stream, and two download buffers: the first pull fails with
  the error of the download of the second file; the second and the third pull
  take the two buffers of the failed batch, so that the bytes of the first file
  are opened under the entry of the second; the fourth pull downloads the first
  two files once more and opens the bytes of the first file a second time; the
  fifth pull ends the stream, and the third and fourth file were never
  downloaded.
\<close>

theorem stale_batch_reopens_file:
  "fst (pulls [firstOnlyWorld, brokenBodyWorld, brokenBodyWorld, brokenBodyWorld, brokenBodyWorld]
          gzSession)
     = [Inl (Failure ''RequestTimeout''), Inl ErrTimeout, Inl ErrTimeout, Inl ErrTimeout, Inl ErrEOF]
   \<and> opens [firstOnlyWorld, brokenBodyWorld, brokenBodyWorld, brokenBodyWorld, brokenBodyWorld]
        gzSession
     = [None,
        Some (mkFileInfo ''b.json.gz'', ''broken body of a.json.gz''),
        Some (mkFileInfo ''c.json.gz'', []),
        Some (mkFileInfo ''d.json.gz'', ''broken body of a.json.gz''),
        None]"
  by code_simp

subsection \<open>A record without an event type\<close>

text \<open>
  C9. When the record that a pull takes parses as a JSON object with an
  \<open>eventTime\<close> string that is a valid time, and its \<open>eventType\<close> member is
  missing or is not a string, the pull returns the retry-later result and the
  record position has moved past the record: the record is dropped.
\<close>

theorem missing_eventType_retry:
  assumes "refill w p = (Inr u, q)"
    and "index (evtJSONStrings q) (evtJSONListPos q) = Some evtData"
    and "fastjsonParse w evtData = Some (JObject kvs)"
    and "map_of kvs ''eventTime'' = Some (JString timeVal)"
    and "timeParse w timeVal = Some ts"
    and "\<forall>s. map_of kvs ''eventType'' \<noteq> Some (JString s)"
  shows "nextEvent w p = (Inl ErrTimeout, q\<lparr>evtJSONListPos := evtJSONListPos q + 1\<rparr>)"
proof -
  from assms(2) have ne: "evtJSONStrings q \<noteq> []"
    by (auto simp: index_def split: if_splits)
  from assms(6) have "GetStringBytes (JObject kvs) ''eventType'' = None"
    by (auto split: option.splits json.splits)
  with assms ne show ?thesis
    by (simp add: nextEvent_def emitRecord_def Let_def)
qed

theorem missing_eventType_retry_witness:
  \<open>refill untypedWorld ((newSession fileMode [])\<lparr>evtJSONStrings := [''{"eventTime":"2023-01-01T00:00:00Z"}'']\<rparr>)
     = (Inr (), (newSession fileMode [])\<lparr>evtJSONStrings := [''{"eventTime":"2023-01-01T00:00:00Z"}'']\<rparr>)
   \<and> fastjsonParse untypedWorld ''{"eventTime":"2023-01-01T00:00:00Z"}''
       = Some (JObject [(''eventTime'', JString ''2023-01-01T00:00:00Z'')])
   \<and> timeParse untypedWorld ''2023-01-01T00:00:00Z'' = Some 1672531200000000000
   \<and> nextEvent untypedWorld ((newSession fileMode [])\<lparr>evtJSONStrings := [''{"eventTime":"2023-01-01T00:00:00Z"}'']\<rparr>)
       = (Inl ErrTimeout,
          (newSession fileMode [])\<lparr>evtJSONStrings := [''{"eventTime":"2023-01-01T00:00:00Z"}''],
                                     evtJSONListPos := 1\<rparr>)\<close>
  using missing_eventType_retry
    [of untypedWorld \<open>(newSession fileMode [])\<lparr>evtJSONStrings := [''{"eventTime":"2023-01-01T00:00:00Z"}'']\<rparr>\<close>
        \<open>()\<close> \<open>(newSession fileMode [])\<lparr>evtJSONStrings := [''{"eventTime":"2023-01-01T00:00:00Z"}'']\<rparr>\<close>
        \<open>''{"eventTime":"2023-01-01T00:00:00Z"}''\<close>
        \<open>[(''eventTime'', JString ''2023-01-01T00:00:00Z'')]\<close>
        \<open>''2023-01-01T00:00:00Z''\<close> 1672531200000000000]
  by (simp add: newSession_def refill_def untypedWorld_def quietWorld_def index_def)

section \<open>Properties of the downloader\<close>

lemma s3Download_ok:
  "\<forall>f \<in> set fs. \<exists>body. Download w b (name f) = Inr body \<Longrightarrow> j + length fs \<le> length bufs \<Longrightarrow>
   s3Download w b fs j bufs errs
     = Inr (take j bufs @ map (fetched w b) fs @ drop (j + length fs) bufs, errs)"
proof (induction fs arbitrary: j bufs)
  case Nil
  then show ?case by simp
next
  case (Cons f fs)
  from Cons.prems(1) obtain body where d: "Download w b (name f) = Inr body" by auto
  from Cons.prems(2) have j: "j < length bufs" by simp
  have "s3Download w b fs (j + 1) (bufs[j := body]) errs
      = Inr (take (j + 1) (bufs[j := body]) @ map (fetched w b) fs
             @ drop (j + 1 + length fs) (bufs[j := body]), errs)"
    by (rule Cons.IH) (use Cons.prems in simp_all)
  moreover have "take (j + 1) (bufs[j := body]) = take j bufs @ [body]"
    using j by (simp add: take_Suc_conv_app_nth)
  moreover have "drop (j + 1 + length fs) (bufs[j := body]) = drop (j + 1 + length fs) bufs"
    by simp
  ultimately show ?case using d j by (simp add: fetched_def)
qed

lemma reads_buffered:
  "0 \<le> curBuf (s3 q) \<Longrightarrow> curBuf (s3 q) + int (length ws) \<le> nFilledBufs (s3 q) \<Longrightarrow>
   nFilledBufs (s3 q) \<le> int (length (DownloadBufs (s3 q))) \<Longrightarrow>
   reads ws q
     = (map Inr (take (length ws) (drop (nat (curBuf (s3 q))) (DownloadBufs (s3 q)))),
        q\<lparr>s3 := (s3 q)\<lparr>curBuf := curBuf (s3 q) + int (length ws)\<rparr>\<rparr>)"
proof (induction ws arbitrary: q)
  case Nil
  then show ?case by simp
next
  case (Cons w ws)
  let ?q1 = "q\<lparr>s3 := (s3 q)\<lparr>curBuf := curBuf (s3 q) + 1\<rparr>\<rparr>"
  let ?c = "nat (curBuf (s3 q))"
  have c: "?c < length (DownloadBufs (s3 q))" using Cons.prems by simp
  have r: "readNextFileS3 w q = (Inr (DownloadBufs (s3 q) ! ?c), ?q1)"
    using Cons.prems by (simp add: readNextFileS3_def Let_def index_def)
  have ih: "reads ws ?q1
     = (map Inr (take (length ws) (drop (nat (curBuf (s3 ?q1))) (DownloadBufs (s3 ?q1)))),
        ?q1\<lparr>s3 := (s3 ?q1)\<lparr>curBuf := curBuf (s3 ?q1) + int (length ws)\<rparr>\<rparr>)"
    by (rule Cons.IH) (use Cons.prems in simp_all)
  have n: "nat (curBuf (s3 q) + 1) = Suc ?c"
    using Cons.prems(1) by simp
  have d: "drop ?c (DownloadBufs (s3 q))
      = DownloadBufs (s3 q) ! ?c # drop (Suc ?c) (DownloadBufs (s3 q))"
    using c by (simp add: Cons_nth_drop_Suc)
  have "reads (w # ws) q
      = (Inr (DownloadBufs (s3 q) ! ?c)
           # map Inr (take (length ws) (drop (Suc ?c) (DownloadBufs (s3 q)))),
         q\<lparr>s3 := (s3 q)\<lparr>curBuf := curBuf (s3 q) + 1 + int (length ws)\<rparr>\<rparr>)"
    using r ih n by simp
  also have "\<dots> = (map Inr (take (length (w # ws)) (drop ?c (DownloadBufs (s3 q)))),
        q\<lparr>s3 := (s3 q)\<lparr>curBuf := curBuf (s3 q) + int (length (w # ws))\<rparr>\<rparr>)"
    by (subst d) (simp add: add.assoc add.commute)
  finally show ?case .
qed

lemma slice_length:
  "hi \<le> length xs \<Longrightarrow> length (slice xs lo hi) = hi - lo"
  by (simp add: slice_def)

lemma slice_set: "x \<in> set (slice xs lo hi) \<Longrightarrow> x \<in> set xs"
  by (auto simp: slice_def dest: in_set_takeD in_set_dropD)

lemma slice_drop1: "drop 1 (slice xs lo hi) = slice xs (lo + 1) hi"
  by (simp add: slice_def drop_take)

text \<open>
  C7, as amended. In a session with as many download buffers as the configured
  concurrency, at least one, when no buffered download is left, a file is still to
  be downloaded, and every download of the batch succeeds: the batch size is the
  minimum of the configured concurrency and the number of files not yet downloaded,
  the cursor of downloaded files advances by the batch size, the call returns the
  body of the first file of the batch (slot 0), and the next calls, one per
  remaining slot, return the bodies of the following files in order without any
  download, after which no buffered slot is left.
\<close>

theorem batch_download:
  assumes nobuf: "\<not> curBuf (s3 p) < nFilledBufs (s3 p)"
    and k0: "0 \<le> lastDownloadedFileNum (s3 p)"
    and kn: "lastDownloadedFileNum (s3 p) < int (length (files p))"
    and D1: "1 \<le> S3DownloadConcurrency (config p)"
    and DB: "int (length (DownloadBufs (s3 p))) = S3DownloadConcurrency (config p)"
    and k: "k = lastDownloadedFileNum (s3 p)"
    and n: "n = min (S3DownloadConcurrency (config p)) (int (length (files p)) - k)"
    and ok: "\<forall>f \<in> set (slice (files p) (nat k) (nat (k + n))).
               \<exists>body. Download w (bucket (s3 p)) (name f) = Inr body"
    and p': "p' = p\<lparr>s3 := (s3 p)
               \<lparr>nFilledBufs := n,
                DownloadBufs := map (fetched w (bucket (s3 p))) (slice (files p) (nat k) (nat (k + n)))
                                 @ drop (nat n) (DownloadBufs (s3 p)),
                lastDownloadedFileNum := k + n,
                curBuf := 1\<rparr>\<rparr>"
  shows "readNextFileS3 w p = (Inr (fetched w (bucket (s3 p)) (files p ! nat k)), p')
       \<and> (length ws = nat n - 1 \<longrightarrow>
            reads ws p' = (map (\<lambda>f. Inr (fetched w (bucket (s3 p)) f))
                             (slice (files p) (nat k + 1) (nat (k + n))),
                           p'\<lparr>s3 := (s3 p')\<lparr>curBuf := n\<rparr>\<rparr>))"
proof -
  let ?batch = "slice (files p) (nat k) (nat (k + n))"
  let ?bkt = "bucket (s3 p)"
  let ?bufs = "DownloadBufs (s3 p)"
  have n1: "1 \<le> n" and nD: "n \<le> int (length ?bufs)" and nk: "k + n \<le> int (length (files p))"
    using k0 kn D1 DB k n by simp_all
  have lb: "length ?batch = nat n"
    using nk k0 k n1 by (simp add: slice_length nat_add_distrib nat_le_iff)
  have dl: "s3Download w ?bkt ?batch 0 ?bufs []
      = Inr (take 0 ?bufs @ map (fetched w ?bkt) ?batch @ drop (0 + length ?batch) ?bufs, [])"
    by (rule s3Download_ok [OF ok]) (use lb nD in simp)
  have hd: "(map (fetched w ?bkt) ?batch @ drop (nat n) ?bufs) ! 0 = fetched w ?bkt (files p ! nat k)"
    using lb n1 nk k0 k by (simp add: nth_append slice_def)
  have ne: "?batch \<noteq> []" using lb n1 by auto
  have first: "readNextFileS3 w p = (Inr (fetched w ?bkt (files p ! nat k)), p')"
    using nobuf k0 n1 dl lb hd ne
    by (simp add: readNextFileS3_def Let_def k [symmetric] n [symmetric] p' index_def)
  define bufs' where "bufs' = map (fetched w ?bkt) ?batch @ drop (nat n) ?bufs"
  have cb: "curBuf (s3 p') = 1" and db: "DownloadBufs (s3 p') = bufs'"
    and nf: "nFilledBufs (s3 p') = n"
    by (simp_all add: p' bufs'_def)
  have lbufs: "int (length bufs') \<ge> n"
    using lb nD by (simp add: bufs'_def)
  have tk: "take (nat n - 1) (drop 1 bufs')
        = map (fetched w ?bkt) (slice (files p) (nat k + 1) (nat (k + n)))"
  proof -
    have "drop 1 bufs'
        = map (fetched w ?bkt) (slice (files p) (nat k + 1) (nat (k + n))) @ drop (nat n) ?bufs"
      using lb n1 by (simp add: bufs'_def drop_map slice_drop1 del: One_nat_def)
    moreover have "length (slice (files p) (nat k + 1) (nat (k + n))) = nat n - 1"
      using lb by (simp add: slice_drop1 [symmetric] del: One_nat_def)
    ultimately show ?thesis by simp
  qed
  have later: "reads ws p' = (map (\<lambda>f. Inr (fetched w ?bkt f))
                             (slice (files p) (nat k + 1) (nat (k + n))),
                           p'\<lparr>s3 := (s3 p')\<lparr>curBuf := n\<rparr>\<rparr>)"
    if len: "length ws = nat n - 1"
  proof -
    have "reads ws p'
     = (map Inr (take (length ws) (drop (nat (curBuf (s3 p'))) (DownloadBufs (s3 p')))),
        p'\<lparr>s3 := (s3 p')\<lparr>curBuf := curBuf (s3 p') + int (length ws)\<rparr>\<rparr>)"
      by (rule reads_buffered) (use len n1 lbufs in \<open>simp_all add: cb db nf\<close>)
    also have "take (length ws) (drop (nat (curBuf (s3 p'))) (DownloadBufs (s3 p')))
        = map (fetched w ?bkt) (slice (files p) (nat k + 1) (nat (k + n)))"
      using tk by (simp add: cb db len)
    also have "curBuf (s3 p') + int (length ws) = n"
      using len n1 cb by simp
    finally show ?thesis by (simp add: comp_def)
  qed
  from first later show ?thesis by blast
qed

theorem batch_download_witness:
  "\<not> curBuf (s3 bucketSession) < nFilledBufs (s3 bucketSession)
   \<and> lastDownloadedFileNum (s3 bucketSession) = 0
   \<and> min (S3DownloadConcurrency (config bucketSession))
         (int (length (files bucketSession)) - lastDownloadedFileNum (s3 bucketSession)) = 2
   \<and> Download bodyWorld ''trail'' ''a.json'' = Inr ''body of a.json''
   \<and> Download bodyWorld ''trail'' ''b.json'' = Inr ''body of b.json''
   \<and> readNextFileS3 bodyWorld bucketSession
       = (Inr ''body of a.json'',
          bucketSession\<lparr>s3 := (s3 bucketSession)
            \<lparr>nFilledBufs := 2, DownloadBufs := [''body of a.json'', ''body of b.json''],
             lastDownloadedFileNum := 2, curBuf := 1\<rparr>\<rparr>)
   \<and> reads [downloadFailWorld]
        (bucketSession\<lparr>s3 := (s3 bucketSession)
            \<lparr>nFilledBufs := 2, DownloadBufs := [''body of a.json'', ''body of b.json''],
             lastDownloadedFileNum := 2, curBuf := 1\<rparr>\<rparr>)
       = ([Inr ''body of b.json''],
          bucketSession\<lparr>s3 := (s3 bucketSession)
            \<lparr>nFilledBufs := 2, DownloadBufs := [''body of a.json'', ''body of b.json''],
             lastDownloadedFileNum := 2, curBuf := 2\<rparr>\<rparr>)"
proof -
  let ?p' = "bucketSession\<lparr>s3 := (s3 bucketSession)
            \<lparr>nFilledBufs := 2, DownloadBufs := [''body of a.json'', ''body of b.json''],
             lastDownloadedFileNum := 2, curBuf := 1\<rparr>\<rparr>"
  have cfg: "S3DownloadConcurrency (config bucketSession) = 2"
    by (simp add: bucketSession_def newSession_def exampleConfig_def)
  have fs: "files bucketSession = [mkFileInfo ''a.json'', mkFileInfo ''b.json'', mkFileInfo ''c.json'']"
    by (simp add: bucketSession_def newSession_def)
  have st: "s3 bucketSession = emptyS3\<lparr>bucket := ''trail'', clientInit := True, DownloadBufs := [[], []]\<rparr>"
    by (simp add: bucketSession_def)
  have h1: "\<not> curBuf (s3 bucketSession) < nFilledBufs (s3 bucketSession)"
    by (simp add: st emptyS3_def)
  have h2: "0 \<le> lastDownloadedFileNum (s3 bucketSession)"
    and k: "(0::int) = lastDownloadedFileNum (s3 bucketSession)"
    by (simp_all add: st emptyS3_def)
  have h3: "lastDownloadedFileNum (s3 bucketSession) < int (length (files bucketSession))"
    by (simp add: st fs emptyS3_def)
  have h4: "1 \<le> S3DownloadConcurrency (config bucketSession)" by (simp add: cfg)
  have h5: "int (length (DownloadBufs (s3 bucketSession))) = S3DownloadConcurrency (config bucketSession)"
    by (simp add: st cfg)
  have n: "(2::int) = min (S3DownloadConcurrency (config bucketSession)) (int (length (files bucketSession)) - 0)"
    by (simp add: cfg fs)
  have batch: "slice (files bucketSession) (nat 0) (nat (0 + 2)) = [mkFileInfo ''a.json'', mkFileInfo ''b.json'']"
    by (simp add: fs slice_def)
  have da: "Download bodyWorld ''trail'' ''a.json'' = Inr ''body of a.json''"
    and db: "Download bodyWorld ''trail'' ''b.json'' = Inr ''body of b.json''"
    by (simp_all add: bodyWorld_def quietWorld_def)
  have bk: "bucket (s3 bucketSession) = ''trail''" by (simp add: st)
  have ok: "\<forall>f \<in> set (slice (files bucketSession) (nat 0) (nat (0 + 2))).
               \<exists>body. Download bodyWorld (bucket (s3 bucketSession)) (name f) = Inr body"
    unfolding batch bk by (simp add: mkFileInfo_def da db)
  have bufs: "map (fetched bodyWorld (bucket (s3 bucketSession)))
                (slice (files bucketSession) (nat 0) (nat (0 + 2)))
              @ drop (nat 2) (DownloadBufs (s3 bucketSession))
            = [''body of a.json'', ''body of b.json'']"
    unfolding batch bk by (simp add: st fetched_def mkFileInfo_def da db)
  have p': "?p' = bucketSession\<lparr>s3 := (s3 bucketSession)
               \<lparr>nFilledBufs := 2,
                DownloadBufs := map (fetched bodyWorld (bucket (s3 bucketSession)))
                                  (slice (files bucketSession) (nat 0) (nat (0 + 2)))
                                 @ drop (nat 2) (DownloadBufs (s3 bucketSession)),
                lastDownloadedFileNum := 0 + 2,
                curBuf := 1\<rparr>\<rparr>"
    unfolding bufs by simp
  have first: "fetched bodyWorld (bucket (s3 bucketSession)) (files bucketSession ! nat 0) = ''body of a.json''"
    unfolding bk by (simp add: fs fetched_def mkFileInfo_def da)
  have later: "map (\<lambda>f. Inr (fetched bodyWorld (bucket (s3 bucketSession)) f))
                 (slice (files bucketSession) (nat 0 + 1) (nat (0 + 2)))
             = [Inr ''body of b.json'' :: error + string]"
    unfolding bk by (simp add: fs slice_def fetched_def mkFileInfo_def db)
  have len: "length [downloadFailWorld] = nat 2 - 1" by simp
  have upd: "?p'\<lparr>s3 := (s3 ?p')\<lparr>curBuf := 2\<rparr>\<rparr>
      = bucketSession\<lparr>s3 := (s3 bucketSession)
            \<lparr>nFilledBufs := 2, DownloadBufs := [''body of a.json'', ''body of b.json''],
             lastDownloadedFileNum := 2, curBuf := 2\<rparr>\<rparr>"
    by simp
  note inst = batch_download [OF h1 h2 h3 h4 h5 k n ok p', of "[downloadFailWorld]",
      unfolded first later upd]
  from inst len have r: "readNextFileS3 bodyWorld bucketSession = (Inr ''body of a.json'', ?p')"
    and s: "reads [downloadFailWorld] ?p' = ([Inr ''body of b.json''],
          bucketSession\<lparr>s3 := (s3 bucketSession)
            \<lparr>nFilledBufs := 2, DownloadBufs := [''body of a.json'', ''body of b.json''],
             lastDownloadedFileNum := 2, curBuf := 2\<rparr>\<rparr>)"
    by blast+
  have m: "min (S3DownloadConcurrency (config bucketSession))
         (int (length (files bucketSession)) - lastDownloadedFileNum (s3 bucketSession)) = 2"
    using n k by simp
  from h1 k [symmetric] m da db r s show ?thesis by blast
qed

text \<open>
  The claim as it was stated fails when a download of the batch fails: the call
  returns the error, and the cursor of downloaded files is where it was.
\<close>

theorem failed_batch_does_not_advance:
  "\<not> curBuf (s3 bucketSession) < nFilledBufs (s3 bucketSession)
   \<and> lastDownloadedFileNum (s3 bucketSession) = 0
   \<and> length (files bucketSession) = 3
   \<and> fst (readNextFileS3 downloadFailWorld bucketSession) = Inl (Failure ''RequestTimeout'')
   \<and> lastDownloadedFileNum (s3 (snd (readNextFileS3 downloadFailWorld bucketSession))) = 0"
proof -
  have cfg: "S3DownloadConcurrency (config bucketSession) = 2"
    by (simp add: bucketSession_def newSession_def exampleConfig_def)
  have fs: "files bucketSession = [mkFileInfo ''a.json'', mkFileInfo ''b.json'', mkFileInfo ''c.json'']"
    by (simp add: bucketSession_def newSession_def)
  have st: "s3 bucketSession = emptyS3\<lparr>bucket := ''trail'', clientInit := True, DownloadBufs := [[], []]\<rparr>"
    by (simp add: bucketSession_def)
  have d: "\<And>b k. Download downloadFailWorld b k = Inl ''RequestTimeout''"
    by (simp add: downloadFailWorld_def quietWorld_def)
  have "readNextFileS3 downloadFailWorld bucketSession
      = (Inl (Failure ''RequestTimeout''),
         bucketSession\<lparr>s3 := (s3 bucketSession)\<lparr>nFilledBufs := 2, DownloadBufs := [[], []]\<rparr>\<rparr>)"
    by (simp add: readNextFileS3_def Let_def cfg fs st emptyS3_def slice_def d)
  then show ?thesis by (simp add: st fs emptyS3_def)
qed

section \<open>Fatal errors of a pull\<close>

lemma sqsNotification_Failure:
  "sqsNotification w m p = (Inl (Failure e), p') \<Longrightarrow>
     \<exists>msg. m ''Message'' = Some (JString msg)
       \<and> (if UseS3SNS (config p) then jsonUnmarshalS3Event w msg = Inl e
           else jsonUnmarshalSNS w msg = Inl e)"
  by (auto simp: sqsNotification_def Let_def
      split: option.splits json.splits if_splits sum.splits
      dest: s3EventRecords_error initS3_cases)

lemma getMoreSQSFiles_Failure:
  assumes "getMoreSQSFiles w p = (Inl (Failure e), p')"
  shows "ReceiveMessage w = Inl e
     \<or> (SQSDelete (config p) \<and> DeleteMessage w = Some e)
     \<or> (\<exists>body rest. ReceiveMessage w = Inr (body # rest)
           \<and> badMessage w (UseS3SNS (config p)) body e)"
proof (cases "ReceiveMessage w")
  case (Inl e')
  with assms show ?thesis by (simp add: getMoreSQSFiles_def)
next
  case (Inr msgs)
  show ?thesis
  proof (cases msgs)
    case Nil
    with Inr assms show ?thesis by (simp add: getMoreSQSFiles_def)
  next
    case (Cons body rest)
    note rcv = Inr [unfolded Cons]
    show ?thesis
    proof (cases "if SQSDelete (config p) then DeleteMessage w else None")
      case (Some e')
      with rcv assms show ?thesis by (auto simp: getMoreSQSFiles_def split: if_splits)
    next
      case None
      have "badMessage w (UseS3SNS (config p)) body e"
      proof (cases "jsonUnmarshalMap w body")
        case (Inl e')
        with rcv None assms show ?thesis
          by (simp add: getMoreSQSFiles_def badMessage_def)
      next
        case (Inr sqsMsg)
        show ?thesis
        proof (cases "sqsMsg ''Type''")
          case None
          with rcv \<open>(if SQSDelete (config p) then DeleteMessage w else None) = None\<close> Inr assms
          show ?thesis by (simp add: getMoreSQSFiles_def badMessage_def)
        next
          case (Some v)
          show ?thesis
          proof (cases "\<exists>t. v = JString t")
            case False
            with rcv None Inr Some assms show ?thesis
              by (cases v) (simp_all add: getMoreSQSFiles_def)
          next
            case True
            then obtain t where v: "v = JString t" by blast
            show ?thesis
            proof (cases "t = ''Notification''")
              case False
              with rcv None Inr Some v assms show ?thesis
                by (simp add: getMoreSQSFiles_def badMessage_def)
            next
              case True
              with rcv None Inr Some v assms
              have "sqsNotification w sqsMsg p = (Inl (Failure e), p')"
                by (simp add: getMoreSQSFiles_def)
              from sqsNotification_Failure [OF this] Inr Some v True show ?thesis
                by (auto simp: badMessage_def)
            qed
          qed
        qed
      qed
      with rcv show ?thesis by blast
    qed
  qed
qed

lemma s3Download_errs:
  "s3Download w b fs j bufs errs = Inr (bufs', errs') \<Longrightarrow> e \<in> set errs' \<Longrightarrow>
     e \<in> set errs \<or> (\<exists>f \<in> set fs. Download w b (name f) = Inl e)"
proof (induction fs arbitrary: j bufs errs)
  case Nil
  then show ?case by simp
next
  case (Cons f fs)
  show ?case
  proof (cases "Download w b (name f)")
    case (Inl e')
    with Cons.prems have "s3Download w b fs (j + 1) bufs (errs @ [e']) = Inr (bufs', errs')"
      by simp
    from Cons.IH [OF this Cons.prems(2)] Inl show ?thesis by auto
  next
    case (Inr body)
    with Cons.prems have "s3Download w b fs (j + 1) (bufs[j := body]) errs = Inr (bufs', errs')"
      by (simp split: if_splits)
    from Cons.IH [OF this Cons.prems(2)] show ?thesis by auto
  qed
qed

lemma readNextFileS3_bucket:
  "readNextFileS3 w p = (r, p') \<Longrightarrow> bucket (s3 p') = bucket (s3 p)"
  by (auto simp: readNextFileS3_def Let_def
      split: option.splits if_splits sum.splits list.splits prod.splits)

lemma readNextFileS3_Failure:
  assumes "readNextFileS3 w p = (Inl (Failure e), p')"
  shows "\<exists>f \<in> set (files p). Download w (bucket (s3 p)) (name f) = Inl e"
proof -
  let ?k = "lastDownloadedFileNum (s3 p)"
  let ?n = "min (S3DownloadConcurrency (config p)) (int (length (files p)) - ?k)"
  from assms obtain bufs errs where
    dl: "s3Download w (bucket (s3 p)) (slice (files p) (nat ?k) (nat (?k + ?n))) 0
           (DownloadBufs (s3 p)) [] = Inr (bufs, e # errs)"
    by (auto simp: readNextFileS3_def Let_def
        split: option.splits if_splits sum.splits list.splits prod.splits
        dest: s3Download_error)
  from s3Download_errs [OF dl, of e] obtain f
    where "f \<in> set (slice (files p) (nat ?k) (nat (?k + ?n)))"
      and "Download w (bucket (s3 p)) (name f) = Inl e" by auto
  then show ?thesis by (auto dest: slice_set)
qed

lemma index_set: "index xs i = Some x \<Longrightarrow> x \<in> set xs"
  by (auto simp: index_def split: if_splits)

lemma readFile_Failure:
  assumes "readFile w f q = (Inl (Failure e), q')"
  shows "ReadFile w (name f) = Inl e
       \<or> (\<exists>g \<in> set (files q'). Download w (bucket (s3 q')) (name g) = Inl e)"
proof (cases "openMode q = fileMode")
  case True
  with assms show ?thesis by (auto simp: readFile_def split: sum.splits)
next
  case False
  with assms have r: "readNextFileS3 w q = (Inl (Failure e), q')"
    by (cases "openMode q") (simp_all add: readFile_def)
  from readNextFileS3_Failure [OF r] readNextFileS3_keeps [OF r] readNextFileS3_bucket [OF r]
  show ?thesis by simp
qed

lemma openNextFile_Failure:
  assumes "openNextFile w q = (Inl (Failure e), q')"
  shows "(\<exists>f \<in> set (files q'). ReadFile w (name f) = Inl e)
       \<or> (\<exists>g \<in> set (files q'). Download w (bucket (s3 q')) (name g) = Inl e)"
proof -
  from assms obtain fi where i: "index (files q) (int (unat (curFileNum q))) = Some fi"
    and r: "readFile w fi (q\<lparr>curFileNum := curFileNum q + 1\<rparr>) = (Inl (Failure e), q')"
    by (auto simp: openNextFile_def split: option.splits sum.splits prod.splits if_splits)
  from readFile_keeps [OF r] have "files q' = files q" by simp
  with index_set [OF i] have "fi \<in> set (files q')" by simp
  with readFile_Failure [OF r] show ?thesis by auto
qed

lemma moreFiles_Failure:
  "moreFiles w p = (Inl (Failure e), p') \<Longrightarrow>
     ReceiveMessage w = Inl e
     \<or> (SQSDelete (config p) \<and> DeleteMessage w = Some e)
     \<or> (\<exists>body rest. ReceiveMessage w = Inr (body # rest)
           \<and> badMessage w (UseS3SNS (config p)) body e)"
  by (auto simp: moreFiles_def split: if_splits prod.splits sum.splits
      dest!: getMoreSQSFiles_Failure)

lemma emitRecord_Failure:
  assumes "emitRecord w q = (Inl (Failure e), q')"
  shows "\<exists>evtData \<in> set (evtJSONStrings q'). recordAccepted w evtData \<and> writeFailed w evtData e"
proof -
  from assms obtain evtData cr timeVal ts ets
    where i: "index (evtJSONStrings q) (evtJSONListPos q) = Some evtData"
      and a: "fastjsonParse w evtData = Some cr" "GetStringBytes cr ''eventTime'' = Some timeVal"
        "timeParse w timeVal = Some ts" "GetStringBytes cr ''eventType'' = Some ets"
        "ets \<noteq> ''AwsCloudTrailInsight''"
      and wr: "(case evtWrite w evtData of
                  (n, Some e') \<Rightarrow> (Inl (Failure e') :: error + (64 word \<times> string))
                | (n, None) \<Rightarrow> (if n < length evtData then Inl (Failure ''cloudwatch message too long'')
                                else Inr (ts, evtData))) = Inl (Failure e)"
      and q': "evtJSONStrings q' = evtJSONStrings q"
    by (auto simp: emitRecord_def Let_def split: if_splits option.splits prod.splits)
  from a have "recordAccepted w evtData" by (simp add: recordAccepted_def)
  moreover from wr have "writeFailed w evtData e"
    by (auto simp: writeFailed_def split: prod.splits option.splits if_splits)
  ultimately show ?thesis using index_set [OF i] q' by auto
qed

lemma emitRecord_rejected:
  assumes "index (evtJSONStrings q) (evtJSONListPos q) = Some evtData"
    and "\<not> recordAccepted w evtData"
  shows "fst (emitRecord w q) = Inl ErrTimeout"
proof -
  from assms(1) have "evtJSONStrings q \<noteq> []" by (auto simp: index_def split: if_splits)
  with assms show ?thesis
    by (auto simp: emitRecord_def Let_def recordAccepted_def split: option.splits)
qed

lemma emitRecord_files:
  "emitRecord w q = (r, q') \<Longrightarrow> files q' = files q \<and> s3 q' = s3 q"
  by (auto simp: emitRecord_def Let_def split: if_splits option.splits prod.splits)

lemma nextEvent_Failure:
  assumes "nextEvent w p = (Inl (Failure e), p')"
  shows "ReceiveMessage w = Inl e
     \<or> (SQSDelete (config p) \<and> DeleteMessage w = Some e)
     \<or> (\<exists>body rest. ReceiveMessage w = Inr (body # rest)
           \<and> badMessage w (UseS3SNS (config p)) body e)
     \<or> (\<exists>f \<in> set (files p'). ReadFile w (name f) = Inl e)
     \<or> (\<exists>f \<in> set (files p'). Download w (bucket (s3 p')) (name f) = Inl e)
     \<or> (\<exists>evtData \<in> set (evtJSONStrings p'). recordAccepted w evtData \<and> writeFailed w evtData e)"
proof -
  obtain r1 p1 where f: "refill w p = (r1, p1)" by (cases "refill w p")
  show ?thesis
  proof (cases r1)
    case (Inr u)
    with assms f have "emitRecord w p1 = (Inl (Failure e), p')" by (simp add: nextEvent_def)
    from emitRecord_Failure [OF this] show ?thesis by blast
  next
    case (Inl e1)
    with assms f have rf: "refill w p = (Inl (Failure e), p')" by (simp add: nextEvent_def)
    then have pos: "evtJSONListPos p \<ge> int (length (evtJSONStrings p))"
      by (auto simp: refill_def split: if_splits)
    obtain r2 p2 where m: "moreFiles w p = (r2, p2)" by (cases "moreFiles w p")
    show ?thesis
    proof (cases r2)
      case (Inl e2)
      with rf pos m have "moreFiles w p = (Inl (Failure e), p')" by (simp add: refill_def)
      from moreFiles_Failure [OF this] show ?thesis by blast
    next
      case (Inr u)
      with rf pos m have "openNextFile w p2 = (Inl (Failure e), p')" by (simp add: refill_def)
      from openNextFile_Failure [OF this] show ?thesis by blast
    qed
  qed
qed

lemma nextEvent_rejected:
  assumes "refill w p = (Inr u, q)"
    and "index (evtJSONStrings q) (evtJSONListPos q) = Some evtData"
    and "\<not> recordAccepted w evtData"
  shows "fst (nextEvent w p) = Inl ErrTimeout"
  using assms emitRecord_rejected [OF assms(2,3)] by (simp add: nextEvent_def)

lemma nextEvent_no_records:
  assumes "refill w p = (Inr u, q)" and "evtJSONStrings q = []"
  shows "fst (nextEvent w p) = Inl ErrTimeout"
  using assms by (simp add: nextEvent_def emitRecord_def)

text \<open>
  C2, as amended. A pull returns a fatal error only with the error of a failed
  receive or delete on the queue, of a received message that does not decode as an
  SNS notification, of a failed file read or download, or of a failed or short write
  of an accepted record. What is read from a file never gives a fatal error: a
  compressed file that does not inflate, a file without records, and a record that
  does not parse or has no valid time or type, each give the retry-later result.
\<close>

theorem fatal_errors_of_a_pull:
  "(nextEvent w p = (Inl (Failure e), p') \<longrightarrow>
      ReceiveMessage w = Inl e
      \<or> (SQSDelete (config p) \<and> DeleteMessage w = Some e)
      \<or> (\<exists>body rest. ReceiveMessage w = Inr (body # rest)
            \<and> badMessage w (UseS3SNS (config p)) body e)
      \<or> (\<exists>f \<in> set (files p'). ReadFile w (name f) = Inl e)
      \<or> (\<exists>f \<in> set (files p'). Download w (bucket (s3 p')) (name f) = Inl e)
      \<or> (\<exists>evtData \<in> set (evtJSONStrings p'). recordAccepted w evtData \<and> writeFailed w evtData e))
   \<and> (evtJSONListPos p \<ge> int (length (evtJSONStrings p)) \<and> moreFiles w p = (Inr u, p1)
       \<and> index (files p1) (int (unat (curFileNum p1))) = Some fi \<and> isCompressed fi
       \<and> readFile w fi (p1\<lparr>curFileNum := curFileNum p1 + 1\<rparr>) = (Inr bytes, p2)
       \<and> gzipReadAll w bytes = None
       \<longrightarrow> fst (nextEvent w p) = Inl ErrTimeout)
   \<and> (refill w p = (Inr u, q) \<and> evtJSONStrings q = [] \<longrightarrow> fst (nextEvent w p) = Inl ErrTimeout)
   \<and> (refill w p = (Inr u, q) \<and> index (evtJSONStrings q) (evtJSONListPos q) = Some evtData
       \<and> \<not> recordAccepted w evtData
       \<longrightarrow> fst (nextEvent w p) = Inl ErrTimeout)"
proof (intro conjI impI)
  assume "nextEvent w p = (Inl (Failure e), p')"
  then show "ReceiveMessage w = Inl e
      \<or> (SQSDelete (config p) \<and> DeleteMessage w = Some e)
      \<or> (\<exists>body rest. ReceiveMessage w = Inr (body # rest)
            \<and> badMessage w (UseS3SNS (config p)) body e)
      \<or> (\<exists>f \<in> set (files p'). ReadFile w (name f) = Inl e)
      \<or> (\<exists>f \<in> set (files p'). Download w (bucket (s3 p')) (name f) = Inl e)
      \<or> (\<exists>evtData \<in> set (evtJSONStrings p'). recordAccepted w evtData \<and> writeFailed w evtData e)"
    by (rule nextEvent_Failure)
next
  assume a: "evtJSONListPos p \<ge> int (length (evtJSONStrings p)) \<and> moreFiles w p = (Inr u, p1)
       \<and> index (files p1) (int (unat (curFileNum p1))) = Some fi \<and> isCompressed fi
       \<and> readFile w fi (p1\<lparr>curFileNum := curFileNum p1 + 1\<rparr>) = (Inr bytes, p2)
       \<and> gzipReadAll w bytes = None"
  have "refill w p = (Inl ErrTimeout, p2)"
    by (rule corrupt_gzip_refill [of p w u p1 fi bytes p2]) (use a in simp_all)
  then show "fst (nextEvent w p) = Inl ErrTimeout" by (simp add: nextEvent_def)
next
  assume "refill w p = (Inr u, q) \<and> evtJSONStrings q = []"
  then show "fst (nextEvent w p) = Inl ErrTimeout"
    using nextEvent_no_records [of w p u q] by simp
next
  assume "refill w p = (Inr u, q) \<and> index (evtJSONStrings q) (evtJSONListPos q) = Some evtData
       \<and> \<not> recordAccepted w evtData"
  then show "fst (nextEvent w p) = Inl ErrTimeout"
    using nextEvent_rejected [of w p u q evtData] by simp
qed

theorem fatal_errors_of_a_pull_witness:
  "nextEvent readFailWorld (newSession fileMode [mkFileInfo ''a.json''])
     = (Inl (Failure ''permission denied''), (newSession fileMode [mkFileInfo ''a.json''])\<lparr>curFileNum := 1\<rparr>)
   \<and> ReadFile readFailWorld (name (mkFileInfo ''a.json'')) = Inl ''permission denied''
   \<and> isCompressed (mkFileInfo ''a.json.gz'')
   \<and> gzipReadAll corruptWorld ''not a gzip stream'' = None
   \<and> fst (nextEvent corruptWorld (newSession fileMode [mkFileInfo ''a.json.gz''])) = Inl ErrTimeout
   \<and> refill quietWorld (newSession fileMode [mkFileInfo ''a.json''])
       = (Inr (), (newSession fileMode [mkFileInfo ''a.json''])\<lparr>curFileNum := 1\<rparr>)
   \<and> fst (nextEvent quietWorld (newSession fileMode [mkFileInfo ''a.json''])) = Inl ErrTimeout
   \<and> \<not> recordAccepted quietWorld ''{}''
   \<and> fst (nextEvent quietWorld ((newSession fileMode [])\<lparr>evtJSONStrings := [''{}'']\<rparr>)) = Inl ErrTimeout"
  using fatal_errors_of_a_pull
    [of readFailWorld "newSession fileMode [mkFileInfo ''a.json'']" "''permission denied''"
        "(newSession fileMode [mkFileInfo ''a.json''])\<lparr>curFileNum := 1\<rparr>"]
    fatal_errors_of_a_pull
    [of corruptWorld "newSession fileMode [mkFileInfo ''a.json.gz'']" _ _ "()"
        "newSession fileMode [mkFileInfo ''a.json.gz'']" "mkFileInfo ''a.json.gz''"
        "''not a gzip stream''" "(newSession fileMode [mkFileInfo ''a.json.gz''])\<lparr>curFileNum := 1\<rparr>"]
    fatal_errors_of_a_pull
    [of quietWorld "newSession fileMode [mkFileInfo ''a.json'']" _ _ "()" _ _ _ _
        "(newSession fileMode [mkFileInfo ''a.json''])\<lparr>curFileNum := 1\<rparr>"]
    fatal_errors_of_a_pull
    [of quietWorld "(newSession fileMode [])\<lparr>evtJSONStrings := [''{}'']\<rparr>" _ _ "()" _ _ _ _
        "(newSession fileMode [])\<lparr>evtJSONStrings := [''{}'']\<rparr>" "''{}''"]
  by (simp add: newSession_def nextEvent_def refill_def moreFiles_def openNextFile_def
        readFile_def readFailWorld_def corruptWorld_def quietWorld_def mkFileInfo_def
        HasSuffix_def index_def recordAccepted_def extractRecordStrings_def emitRecord_def)

text \<open>
  The claim as it was stated fails: a queue message whose body is not JSON makes
  the pull return the decoder's error, not the retry-later result.
\<close>

theorem malformed_queue_message_is_fatal:
  "openMode (newSession sqsMode []) = sqsMode
   \<and> ReceiveMessage garbledWorld = Inr [''not json'']
   \<and> jsonUnmarshalMap garbledWorld ''not json'' = Inl ''invalid character''
   \<and> nextEvent garbledWorld (newSession sqsMode [])
       = (Inl (Failure ''invalid character''), newSession sqsMode [])"
  by (simp add: newSession_def nextEvent_def refill_def moreFiles_def getMoreSQSFiles_def
        garbledWorld_def quietWorld_def exampleConfig_def)

section \<open>Properties of the key lister\<close>

lemma strLess_irrefl: "\<not> strLess s s"
  by (induction s) auto

lemma listKeysContents_filter:
  "listKeysContents startTS endTS paths fs
     = fs @ map mkFileInfo (filter (\<lambda>p. \<not> droppedByTS startTS endTS p \<and> \<not> droppedByExt p) paths)"
  by (induction paths arbitrary: fs) (simp_all add: mkFileInfo_def)

lemma mkFileInfo_inj: "mkFileInfo a = mkFileInfo b \<longleftrightarrow> a = b"
  by (auto simp: mkFileInfo_def)

lemma mkFileInfo_mem:
  "mkFileInfo path \<in> set (listKeysContents startTS endTS paths [])
     \<longleftrightarrow> path \<in> set paths \<and> \<not> droppedByTS startTS endTS path \<and> \<not> droppedByExt path"
  by (auto simp: listKeysContents_filter mkFileInfo_inj)

lemma chunkLoop_concat:
  "prev \<le> length orgList \<Longrightarrow> concat (chunkLoop orgList chunkSize prev) = drop prev orgList"
proof (induction orgList chunkSize prev rule: chunkLoop.induct)
  case (1 orgList chunkSize prev)
  show ?case
  proof (cases "0 < chunkSize \<and> int prev < int (length orgList) - int chunkSize")
    case False
    then show ?thesis by (subst chunkLoop.simps) auto
  next
    case True
    then have le: "prev + chunkSize \<le> length orgList" by linarith
    have "concat (chunkLoop orgList chunkSize prev)
        = slice orgList prev (prev + chunkSize) @ concat (chunkLoop orgList chunkSize (prev + chunkSize))"
      using True by (subst chunkLoop.simps) simp
    also have "\<dots> = take chunkSize (drop prev orgList) @ drop chunkSize (drop prev orgList)"
      using "1.IH" [OF True le] by (simp add: slice_def add.commute)
    finally show ?thesis by (simp only: append_take_drop_id)
  qed
qed

lemma chunkListOrigin_concat:
  "chunkListOrigin orgList chunkSize = Inr chunks \<Longrightarrow> 1 \<le> chunkSize \<Longrightarrow> concat chunks = orgList"
  by (auto simp: chunkListOrigin_def Let_def chunkLoop_concat split: if_splits)

text \<open>With two origins and the largest chunk size the length of \<open>divided\<close> wraps
  around and \<open>make\<close> panics.\<close>

lemma chunkListOrigin_wraps:
  "chunkListOrigin [\<lparr>prefix = ''a/'', startAfter = None\<rparr>, \<lparr>prefix = ''b/'', startAfter = None\<rparr>]
     (2 ^ 63 - 1) = Inl (OpenPanic ''makeslice: len out of range'')"
  by (simp add: chunkListOrigin_def Let_def wrap64_def quo_def)

lemma listKeys_files:
  "snd (listKeys pages startTS endTS fs)
     = fs @ map mkFileInfo
             (filter (\<lambda>p. \<not> droppedByTS startTS endTS p \<and> \<not> droppedByExt p) (pagesKeys pages))"
  by (induction pages startTS endTS fs rule: listKeys.induct)
     (simp_all add: listKeysContents_filter)

lemma listKeys_ok:
  "listKeys pages startTS endTS fs = (None, fs') \<Longrightarrow>
     fs' = fs @ map mkFileInfo
             (filter (\<lambda>p. \<not> droppedByTS startTS endTS p \<and> \<not> droppedByExt p) (pagesKeys pages))"
  using listKeys_files [of pages startTS endTS fs] by simp

text \<open>
  Whatever the schedule, the merged actions of a chunk are the actions of its
  listings: what is appended and what is sent does not depend on the order.
\<close>

lemma interleave_step:
  assumes "i < length workers" and "workers ! i = a # rest"
  shows "insert a (\<Union>x\<in>set (workers[i := rest]). set x) = (\<Union>x\<in>set workers. set x)"
proof -
  from assms have w: "workers = take i workers @ (a # rest) # drop (Suc i) workers"
    by (metis id_take_nth_drop)
  from assms have u: "workers[i := rest] = take i workers @ rest # drop (Suc i) workers"
    by (simp add: upd_conv_take_nth_drop)
  have "(\<Union>x\<in>set workers. set x)
      = (\<Union>x\<in>set (take i workers @ (a # rest) # drop (Suc i) workers). set x)"
    using w by simp
  then show ?thesis unfolding u by auto
qed

lemma interleave_set: "set (interleave sched workers) = (\<Union>x\<in>set workers. set x)"
proof (induction sched arbitrary: workers)
  case Nil
  show ?case by simp
next
  case (Cons i sched)
  show ?case
  proof (cases "i < length workers")
    case False
    with Cons.IH show ?thesis by simp
  next
    case True
    show ?thesis
    proof (cases "workers ! i")
      case Nil
      with True Cons.IH show ?thesis by simp
    next
      case (Cons a rest)
      with True Cons.IH [of "workers[i := rest]"] interleave_step [OF True Cons]
      show ?thesis by simp
    qed
  qed
qed

lemma appended_set: "set (appended acts) = {fi. Append fi \<in> set acts}"
  by (induction acts rule: appended.induct) auto

lemma sent_Nil: "sent acts = [] \<longleftrightarrow> (\<forall>err. Send err \<notin> set acts)"
  by (induction acts rule: sent.induct) auto

lemma listKeysActions_Append:
  "Append fi \<in> set (listKeysActions pages startTS endTS)
     \<longleftrightarrow> fi \<in> set (snd (listKeys pages startTS endTS []))"
proof (cases "listKeys pages startTS endTS []")
  case (Pair r fs)
  then show ?thesis by (cases r) (auto simp: listKeysActions_def)
qed

lemma listKeysActions_Send:
  "Send err \<in> set (listKeysActions pages startTS endTS)
     \<longleftrightarrow> fst (listKeys pages startTS endTS []) = Some err"
proof (cases "listKeys pages startTS endTS []")
  case (Pair r fs)
  then show ?thesis by (cases r) (auto simp: listKeysActions_def)
qed

lemma listKeys_pages:
  "fst (listKeys pages startTS endTS fs) = None \<Longrightarrow>
     set (snd (listKeys pages startTS endTS fs))
       = set fs \<union> mkFileInfo ` {key \<in> set (pagesKeys pages).
                                  \<not> droppedByTS startTS endTS key \<and> \<not> droppedByExt key}"
  by (auto simp: listKeys_files)

lemma listChunk_ok:
  assumes "sent (listChunk w bkt startTS endTS chunk) = []"
  shows "set (appended (listChunk w bkt startTS endTS chunk))
           = mkFileInfo ` {key \<in> (\<Union>params\<in>set chunk. set (pagesKeys (ListObjects w bkt params))).
                             \<not> droppedByTS startTS endTS key \<and> \<not> droppedByExt key}"
proof -
  have "set (appended (listChunk w bkt startTS endTS chunk))
      = (\<Union>params\<in>set chunk. set (snd (listKeys (ListObjects w bkt params) startTS endTS [])))"
    by (auto simp: appended_set listChunk_def interleave_set listKeysActions_Append)
  then show ?thesis by (auto simp: listKeys_files)
qed

lemma listChunks_ok:
  "listChunks w bkt startTS endTS chunks fs = Inr fs' \<Longrightarrow>
     \<exists>new. fs' = fs @ new
       \<and> set new = mkFileInfo ` {key \<in> (\<Union>params\<in>set (concat chunks).
                                            set (pagesKeys (ListObjects w bkt params))).
                                   \<not> droppedByTS startTS endTS key \<and> \<not> droppedByExt key}"
proof (induction chunks arbitrary: fs)
  case Nil
  then show ?case by simp
next
  case (Cons chunk chunks)
  let ?tr = "listChunk w bkt startTS endTS chunk"
  from Cons.prems have s: "sent ?tr = []"
    and rest: "listChunks w bkt startTS endTS chunks (fs @ appended ?tr) = Inr fs'"
    by (auto split: list.splits)
  from Cons.IH [OF rest] obtain new where
    n: "fs' = (fs @ appended ?tr) @ new"
    and sn: "set new = mkFileInfo ` {key \<in> (\<Union>params\<in>set (concat chunks).
                                            set (pagesKeys (ListObjects w bkt params))).
                                   \<not> droppedByTS startTS endTS key \<and> \<not> droppedByExt key}"
    by blast
  have split: "{key \<in> (\<Union>params\<in>set (concat (chunk # chunks)).
                          set (pagesKeys (ListObjects w bkt params))).
                 \<not> droppedByTS startTS endTS key \<and> \<not> droppedByExt key}
      = {key \<in> (\<Union>params\<in>set chunk. set (pagesKeys (ListObjects w bkt params))).
                 \<not> droppedByTS startTS endTS key \<and> \<not> droppedByExt key}
        \<union> {key \<in> (\<Union>params\<in>set (concat chunks).
                            set (pagesKeys (ListObjects w bkt params))).
                 \<not> droppedByTS startTS endTS key \<and> \<not> droppedByExt key}"
    by auto
  have "fs' = fs @ (appended ?tr @ new)" using n by simp
  moreover have "set (appended ?tr @ new)
      = mkFileInfo ` {key \<in> (\<Union>params\<in>set (concat (chunk # chunks)).
                                            set (pagesKeys (ListObjects w bkt params))).
                                   \<not> droppedByTS startTS endTS key \<and> \<not> droppedByExt key}"
    unfolding split image_Un set_append listChunk_ok [OF s] sn by (rule refl)
  ultimately show ?case by blast
qed

lemma droppedByTS_no_start: "\<not> droppedByTS [] endTS p"
  by (simp add: droppedByTS_def)

lemma initS3_files: "initS3 p = Inr p' \<Longrightarrow> files p' = files p \<and> config p' = config p"
  by (auto simp: initS3_def split: if_splits)

subsection \<open>The timestamp window\<close>

lemma mkFileInfo_listed:
  "mkFileInfo path \<in> set (snd (listKeys pages startTS endTS []))
     \<longleftrightarrow> path \<in> set (pagesKeys pages) \<and> \<not> droppedByTS startTS endTS path \<and> \<not> droppedByExt path"
  by (auto simp: listKeys_files mkFileInfo_inj)

text \<open>
  C5. With a timestamp window set (both timestamps given to \<open>listKeys\<close> are not
  empty, the start not after the end), for every key of the pages listed: a key
  whose filename timestamp is the start, or is the end, or that has no recognizable
  timestamp, is in the file list exactly when its extension is accepted; a key
  whose timestamp is before the start or after the end is not in the file list.
\<close>

theorem timestamp_window:
  assumes "startTS \<noteq> []" and "endTS \<noteq> []" and "\<not> strLess endTS startTS"
    and "path \<in> set (pagesKeys pages)"
  shows "(filepathRE path = Some startTS \<or> filepathRE path = Some endTS \<or> filepathRE path = None
            \<longrightarrow> (mkFileInfo path \<in> set (snd (listKeys pages startTS endTS []))
                  \<longleftrightarrow> \<not> droppedByExt path))
       \<and> (\<forall>pathTS. filepathRE path = Some pathTS
              \<and> (strLess pathTS startTS \<or> strLess endTS pathTS)
            \<longrightarrow> mkFileInfo path \<notin> set (snd (listKeys pages startTS endTS [])))"
  using assms by (auto simp: mkFileInfo_listed droppedByTS_def strLess_irrefl)

theorem timestamp_window_witness:
  "\<not> strLess ''20230102T0000'' ''20230101T0000''
   \<and> filepathRE januaryKey = Some ''20230101T0000''
   \<and> \<not> droppedByExt januaryKey
   \<and> mkFileInfo januaryKey
       \<in> set (snd (listKeys [Inr [januaryKey, marchKey]] ''20230101T0000'' ''20230102T0000'' []))
   \<and> filepathRE marchKey = Some ''20230301T0000''
   \<and> strLess ''20230102T0000'' ''20230301T0000''
   \<and> mkFileInfo marchKey
       \<notin> set (snd (listKeys [Inr [januaryKey, marchKey]] ''20230101T0000'' ''20230102T0000'' []))"
proof -
  have o: "\<not> strLess ''20230102T0000'' ''20230101T0000''" by code_simp
  have j: "filepathRE januaryKey = Some ''20230101T0000''" by code_simp
  have m: "filepathRE marchKey = Some ''20230301T0000''" by code_simp
  have e: "\<not> droppedByExt januaryKey" by code_simp
  have l: "strLess ''20230102T0000'' ''20230301T0000''" by code_simp
  have s: "''20230101T0000'' \<noteq> []" "''20230102T0000'' \<noteq> []" by simp_all
  have k: "januaryKey \<in> set (pagesKeys [Inr [januaryKey, marchKey]])"
    "marchKey \<in> set (pagesKeys [Inr [januaryKey, marchKey]])" by simp_all
  from timestamp_window [OF s o k(1)] j e
  have 1: "mkFileInfo januaryKey
       \<in> set (snd (listKeys [Inr [januaryKey, marchKey]] ''20230101T0000'' ''20230102T0000'' []))"
    by blast
  from timestamp_window [OF s o k(2)] m l
  have 2: "mkFileInfo marchKey
       \<notin> set (snd (listKeys [Inr [januaryKey, marchKey]] ''20230101T0000'' ''20230102T0000'' []))"
    by blast
  from o j e 1 m l 2 show ?thesis by blast
qed

subsection \<open>Opening without a window\<close>

text \<open>
  C10. When a bucket is opened and the interval has no start (whatever its end),
  or no region prefix was found so that the prefix is listed as it was given, no
  key is filtered by its timestamp: the files of the session are the files it had
  and, after them, exactly the listed keys with an accepted extension, whatever
  the timestamp in the name of the key and so also when it is after the end of
  the interval. The order of the new files is that of the listings as they ran
  and is not stated.
\<close>

theorem open_without_window:
  assumes ok: "openS3 w input p = Inr p'"
    and iv: "ParseInterval w (S3Interval (config p)) = Inr (startTime, endTime)"
    and ip: "intervalPrefixes w (bucketOf input) (prefixOf input) (S3AccountList (config p))
               = Inr intervalPrefixList"
    and nw: "IsZero startTime \<or> regionParams w (bucketOf input) startTime intervalPrefixList = []"
  shows "\<exists>new. files p' = files p @ new
           \<and> set new = mkFileInfo `
               {key \<in> (\<Union>params\<in>set (if regionParams w (bucketOf input) startTime intervalPrefixList = []
                                        then [\<lparr>prefix = prefixOf input, startAfter = None\<rparr>]
                                        else regionParams w (bucketOf input) startTime intervalPrefixList).
                          set (pagesKeys (ListObjects w (bucketOf input) params))).
                \<not> droppedByExt key}"
proof -
  let ?bkt = "bucketOf input" and ?pfx = "prefixOf input"
  let ?rp = "regionParams w ?bkt startTime intervalPrefixList"
  let ?params = "if ?rp = [] then [\<lparr>prefix = ?pfx, startAfter = None\<rparr>] else ?rp"
  let ?o = "p\<lparr>openMode := s3Mode\<rparr>"
  from ok have D: "1 \<le> S3DownloadConcurrency (config p)"
    by (auto simp: openS3_def Let_def split: if_splits)
  from ok obtain o1 where i: "initS3 (?o\<lparr>s3 := (s3 ?o)\<lparr>bucket := ?bkt\<rparr>\<rparr>) = Inr o1"
    by (auto simp: openS3_def Let_def split: if_splits sum.splits)
  from initS3_files [OF i] have f1: "files o1 = files p" and c1: "config o1 = config p"
    by simp_all
  have wt: "windowTS ?rp ?pfx startTime endTime = Inr (?params, [], [])"
    using nw by (auto simp: windowTS_def)
  from ok i iv ip wt D obtain chunks fs where
    ck: "chunkListOrigin ?params (S3DownloadConcurrency (config p)) = Inr chunks"
    and lc: "listChunks w ?bkt [] [] chunks (files p) = Inr fs" and p': "p' = o1\<lparr>files := fs\<rparr>"
    by (auto simp: openS3_def Let_def c1 f1 split: if_splits sum.splits)
  from chunkListOrigin_concat [OF ck D] have cc: "concat chunks = ?params" .
  from listChunks_ok [OF lc] p' show ?thesis
    unfolding cc by (simp add: droppedByTS_no_start)
qed

theorem open_without_window_witness:
  "openS3 regionListing ''s3://trail/logs/AWSLogs/123456789012'' (newSession fileMode [])
     = Inr ((newSession s3Mode [mkFileInfo usKey, mkFileInfo euKey])
              \<lparr>s3 := emptyS3\<lparr>bucket := ''trail'', clientInit := True, DownloadBufs := [[], []]\<rparr>\<rparr>)
   \<and> ParseInterval regionListing (S3Interval (config (newSession fileMode [])))
       = Inr (noTime, januarySecond)
   \<and> IsZero noTime \<and> \<not> IsZero januarySecond
   \<and> intervalPrefixes regionListing ''trail'' ''logs/AWSLogs/123456789012'' []
       = Inr [''logs/AWSLogs/123456789012/CloudTrail/'']
   \<and> regionParams regionListing ''trail'' noTime [''logs/AWSLogs/123456789012/CloudTrail/'']
       = [\<lparr>prefix = euPrefix, startAfter = None\<rparr>, \<lparr>prefix = usPrefix, startAfter = None\<rparr>]
   \<and> filepathRE euKey = Some ''20230301T0000''
   \<and> filepathRE usKey = Some ''20230301T0000''
   \<and> strLess (stamp januarySecond) ''20230301T0000''
   \<and> set (files ((newSession s3Mode [mkFileInfo usKey, mkFileInfo euKey])
              \<lparr>s3 := emptyS3\<lparr>bucket := ''trail'', clientInit := True, DownloadBufs := [[], []]\<rparr>\<rparr>))
       = {mkFileInfo euKey, mkFileInfo usKey}"
proof -
  let ?input = "''s3://trail/logs/AWSLogs/123456789012''"
  let ?pfx = "''logs/AWSLogs/123456789012''"
  let ?ipfx = "''logs/AWSLogs/123456789012/CloudTrail/''"
  let ?p = "newSession fileMode []"
  let ?p' = "(newSession s3Mode [mkFileInfo usKey, mkFileInfo euKey])
              \<lparr>s3 := emptyS3\<lparr>bucket := ''trail'', clientInit := True, DownloadBufs := [[], []]\<rparr>\<rparr>"
  let ?eu = "\<lparr>prefix = euPrefix, startAfter = None\<rparr>"
  let ?us = "\<lparr>prefix = usPrefix, startAfter = None\<rparr>"
  have b: "bucketOf ?input = ''trail''" and px: "prefixOf ?input = ?pfx"
    by (simp_all add: bucketOf_def prefixOf_def)
  have cfg: "config ?p = exampleConfig" "S3AccountList exampleConfig = []"
    "S3DownloadConcurrency exampleConfig = 2" "S3Interval exampleConfig = []"
    by (simp_all add: newSession_def exampleConfig_def)
  have iv: "ParseInterval regionListing (S3Interval (config ?p)) = Inr (noTime, januarySecond)"
    by (simp add: regionListing_def)
  have al: "accountListRE []" by (simp add: accountListRE_def)
  have a1: "awsLogsRE ?pfx" by code_simp
  have es: "ensureSlash ?pfx = ''logs/AWSLogs/123456789012/''"
    by (simp add: ensureSlash_def HasSuffix_def)
  have ip: "intervalPrefixes regionListing ''trail'' ?pfx [] = Inr [?ipfx]"
    using a1 by (simp add: intervalPrefixes_def es)
  have hs: "HasSuffix ?ipfx ''/CloudTrail/''" by (simp add: HasSuffix_def)
  have z: "IsZero noTime" "\<not> IsZero januarySecond"
    by (simp_all add: noTime_def januarySecond_def)
  have lr: "ListRegions regionListing ''trail'' ?ipfx = Inr [euPrefix, usPrefix]"
    by (simp add: regionListing_def)
  have rp: "regionParams regionListing ''trail'' noTime [?ipfx] = [?eu, ?us]"
    using hs z by (simp add: lr)
  have wt: "windowTS [?eu, ?us] ?pfx noTime januarySecond = Inr ([?eu, ?us], [], [])"
    using z by (simp add: windowTS_def)
  have cl: "chunkLoop [?eu, ?us] 2 0 = [[?eu, ?us]]"
    by (subst chunkLoop.simps) simp
  have ck: "chunkListOrigin [?eu, ?us] 2 = Inr [[?eu, ?us]]"
    by (simp add: chunkListOrigin_def Let_def wrap64_def quo_def cl nat_2)
  have ne: "euPrefix \<noteq> usPrefix" by (simp add: euPrefix_def usPrefix_def)
  have d1: "\<not> droppedByExt euKey" and d2: "droppedByExt (euPrefix @ ''readme.txt'')"
    and d3: "\<not> droppedByExt usKey"
    unfolding euKey_def usKey_def euPrefix_def usPrefix_def by code_simp+
  have lo1: "ListObjects regionListing ''trail'' ?eu = [Inr [euKey, euPrefix @ ''readme.txt'']]"
    by (simp add: regionListing_def)
  have lo2: "ListObjects regionListing ''trail'' ?us = [Inr [usKey]]"
    using ne by (simp add: regionListing_def)
  have sc: "Schedule regionListing [?eu, ?us] = [1, 0]"
    by (simp add: regionListing_def)
  have k1: "listKeysActions [Inr [euKey, euPrefix @ ''readme.txt'']] [] [] = [Append (mkFileInfo euKey)]"
    using d1 d2 by (simp add: listKeysActions_def droppedByTS_def mkFileInfo_def)
  have k2: "listKeysActions [Inr [usKey]] [] [] = [Append (mkFileInfo usKey)]"
    using d3 by (simp add: listKeysActions_def droppedByTS_def mkFileInfo_def)
  have tr: "listChunk regionListing ''trail'' [] [] [?eu, ?us]
              = [Append (mkFileInfo usKey), Append (mkFileInfo euKey)]"
    by (simp add: listChunk_def sc lo1 lo2 k1 k2)
  have lc: "listChunks regionListing ''trail'' [] [] [[?eu, ?us]] []
              = Inr [mkFileInfo usKey, mkFileInfo euKey]"
    by (simp add: tr)
  have i3: "initS3 (?p\<lparr>openMode := s3Mode, s3 := (s3 (?p\<lparr>openMode := s3Mode\<rparr>))\<lparr>bucket := ''trail''\<rparr>\<rparr>)
      = Inr ((newSession s3Mode [])
              \<lparr>s3 := emptyS3\<lparr>bucket := ''trail'', clientInit := True, DownloadBufs := [[], []]\<rparr>\<rparr>)"
    by (simp add: initS3_def newSession_def exampleConfig_def emptyS3_def numeral_2_eq_2)
  have ok: "openS3 regionListing ?input ?p = Inr ?p'"
    unfolding openS3_def Let_def b px
    using i3 iv al ip rp wt ck lc
    by (simp add: newSession_def exampleConfig_def)
  have m1: "filepathRE euKey = Some ''20230301T0000''"
    unfolding euKey_def euPrefix_def by code_simp
  have m2: "filepathRE usKey = Some ''20230301T0000''"
    unfolding usKey_def usPrefix_def by code_simp
  have l: "strLess (stamp januarySecond) ''20230301T0000''"
    unfolding januarySecond_def by code_simp
  have nw: "IsZero noTime \<or> regionParams regionListing (bucketOf ?input) noTime [?ipfx] = []"
    using z by simp
  have ip': "intervalPrefixes regionListing (bucketOf ?input) (prefixOf ?input)
               (S3AccountList (config ?p)) = Inr [?ipfx]"
    using ip by (simp add: b px cfg)
  have keys: "{key \<in> (\<Union>params\<in>set (if regionParams regionListing ''trail'' noTime [?ipfx] = []
                                        then [\<lparr>prefix = ?pfx, startAfter = None\<rparr>]
                                        else regionParams regionListing ''trail'' noTime [?ipfx]).
                          set (pagesKeys (ListObjects regionListing ''trail'' params))).
                \<not> droppedByExt key} = {euKey, usKey}"
    unfolding rp using d1 d2 d3 by (auto simp: lo1 lo2)
  have fp: "files ?p = []" by (simp add: newSession_def)
  note inst = open_without_window [OF ok iv ip' nw, unfolded b px keys fp]
  from inst have f: "set (files ?p') = {mkFileInfo euKey, mkFileInfo usKey}" by auto
  from ok iv z ip rp m1 m2 l f show ?thesis by blast
qed

section \<open>Properties of the source resolver\<close>

lemma anySuffix_iff: "anySuffix P s \<longleftrightarrow> (\<exists>u v. s = u @ v \<and> P v)"
proof (induction s)
  case Nil
  then show ?case by simp
next
  case (Cons c cs)
  show ?case
  proof
    assume "anySuffix P (c # cs)"
    then consider "P (c # cs)" | "anySuffix P cs" by auto
    then show "\<exists>u v. c # cs = u @ v \<and> P v"
    proof cases
      case 1
      then have "c # cs = [] @ (c # cs) \<and> P (c # cs)" by simp
      then show ?thesis by blast
    next
      case 2
      with Cons.IH obtain u v where "cs = u @ v" "P v" by blast
      then have "c # cs = (c # u) @ v \<and> P v" by simp
      then show ?thesis by blast
    qed
  next
    assume "\<exists>u v. c # cs = u @ v \<and> P v"
    then obtain u v where uv: "c # cs = u @ v" and P: "P v" by blast
    show "anySuffix P (c # cs)"
    proof (cases u)
      case Nil
      with uv have "v = c # cs" by simp
      with P show ?thesis by simp
    next
      case (Cons a u')
      with uv have "cs = u' @ v" by simp
      with P Cons.IH show ?thesis by auto
    qed
  qed
qed

lemma digit_not_slash: "isDigit c \<Longrightarrow> c \<noteq> CHR ''/''"
  by (auto simp: isDigit_def)

lemma alnum_not_slash: "isLowerAlnum c \<Longrightarrow> c \<noteq> CHR ''/''"
  by (auto simp: isLowerAlnum_def isDigit_def)

lemma digit_not_o: "isDigit c \<Longrightarrow> c \<noteq> CHR ''o''"
  by (auto simp: isDigit_def)

lemma digit_not_space: "isDigit c \<Longrightarrow> \<not> isSpace c \<and> c \<noteq> CHR '' '' \<and> c \<noteq> CHR '',''"
  by (auto simp: isDigit_def isSpace_def)

lemma accountTail_account: "isAccountId a \<Longrightarrow> accountTail a \<and> accountTail (a @ ''/'')"
  by (simp add: isAccountId_def accountTail_def)

lemma orgSegment_org: "isOrgId org \<Longrightarrow> orgSegment (''o-'' @ org)"
  by (simp add: isOrgId_def orgSegment_def)

lemma takeWhile_org:
  "isOrgId org \<Longrightarrow> takeWhile (\<lambda>c. c \<noteq> CHR ''/'') (''o-'' @ org @ CHR ''/'' # t) = ''o-'' @ org
     \<and> dropWhile (\<lambda>c. c \<noteq> CHR ''/'') (''o-'' @ org @ CHR ''/'' # t) = CHR ''/'' # t"
proof -
  assume "isOrgId org"
  then have "\<forall>c \<in> set org. c \<noteq> CHR ''/''"
    by (auto simp: isOrgId_def list_all_iff dest: alnum_not_slash)
  then show ?thesis
    by (simp add: takeWhile_append2 dropWhile_append2 takeWhile_eq_all_conv dropWhile_append3)
qed

lemma awsLogsWhole_account:
  "isAccountId a \<Longrightarrow> awsLogsWhole (''/AWSLogs/'' @ a) \<and> awsLogsWhole (''/AWSLogs/'' @ a @ ''/'')"
  using accountTail_account [of a] by (simp add: awsLogsWhole_def)

lemma awsLogsWhole_org_account:
  assumes "isOrgId org" and "isAccountId a"
  shows "awsLogsWhole (''/AWSLogs/o-'' @ org @ ''/'' @ a)
       \<and> awsLogsWhole (''/AWSLogs/o-'' @ org @ ''/'' @ a @ ''/'')"
  using takeWhile_org [OF assms(1), of a] takeWhile_org [OF assms(1), of "a @ ''/''"]
    orgSegment_org [OF assms(1)] accountTail_account [OF assms(2)]
  by (simp add: awsLogsWhole_def)

lemma awsLogsRE_suffix: "awsLogsWhole v \<Longrightarrow> awsLogsRE (u @ v)"
  by (auto simp: awsLogsRE_def anySuffix_iff)

lemma account_last: "isAccountId a \<Longrightarrow> a \<noteq> [] \<and> last a \<noteq> CHR ''/''"
proof -
  assume a: "isAccountId a"
  then have ne: "a \<noteq> []" by (auto simp: isAccountId_def)
  then have "last a \<in> set a" by simp
  with a have "isDigit (last a)" by (simp add: isAccountId_def list_all_iff)
  with ne show ?thesis by (simp add: digit_not_slash)
qed

lemma ensureSlash_slash: "ensureSlash (x @ ''/'') = x @ ''/''"
  by (simp add: ensureSlash_def HasSuffix_def)

lemma ensureSlash_other: "y \<noteq> [] \<Longrightarrow> last y \<noteq> CHR ''/'' \<Longrightarrow> ensureSlash (x @ y) = x @ y @ ''/''"
proof -
  assume y: "y \<noteq> []" "last y \<noteq> CHR ''/''"
  then have "drop (length (x @ y) - 1) (x @ y) = [last y]"
    by (cases y rule: rev_cases) simp_all
  with y show ?thesis by (simp add: ensureSlash_def HasSuffix_def)
qed

lemma accountTail_cases:
  "accountTail t \<Longrightarrow> \<exists>d. isAccountId d \<and> (t = d \<or> t = d @ ''/'')"
proof -
  assume "accountTail t"
  then consider "length t = 12" "list_all isDigit t"
    | "list_all isDigit (take 12 t)" "length t = 13" "drop 12 t = ''/''"
    by (auto simp: accountTail_def)
  then show ?thesis
  proof cases
    case 1
    then show ?thesis by (auto simp: isAccountId_def)
  next
    case 2
    then have "isAccountId (take 12 t)" by (simp add: isAccountId_def)
    moreover have "t = take 12 t @ ''/''" using 2(3) append_take_drop_id [of 12 t] by simp
    ultimately show ?thesis by blast
  qed
qed

lemma awsLogsWhole_cases:
  assumes "awsLogsWhole v"
  shows "\<exists>x d. isAccountId d \<and> (v = x @ CHR ''/'' # d \<or> v = x @ CHR ''/'' # d @ ''/'')"
proof -
  let ?P = "\<lambda>c. c \<noteq> CHR ''/''"
  from assms have pre: "take 9 v = ''/AWSLogs/''" by (simp add: awsLogsWhole_def)
  have v: "v = ''/AWSLogs'' @ CHR ''/'' # drop 9 v"
    using append_take_drop_id [of 9 v] pre by simp
  from assms consider "accountTail (drop 9 v)"
    | t where "dropWhile ?P (drop 9 v) = CHR ''/'' # t" "accountTail t"
  proof -
    assume a: "accountTail (drop 9 v) \<Longrightarrow> thesis"
      and b: "\<And>t. dropWhile ?P (drop 9 v) = CHR ''/'' # t \<Longrightarrow> accountTail t \<Longrightarrow> thesis"
    show thesis
    proof (cases "accountTail (drop 9 v)")
      case True
      then show ?thesis by (rule a)
    next
      case False
      from assms have "accountTail (drop 9 v)
          \<or> (case dropWhile ?P (drop 9 v) of [] \<Rightarrow> False | _ # t \<Rightarrow> accountTail t)"
        unfolding awsLogsWhole_def Let_def by blast
      with False have "case dropWhile ?P (drop 9 v) of [] \<Rightarrow> False | _ # t \<Rightarrow> accountTail t"
        by blast
      then obtain c t where d: "dropWhile ?P (drop 9 v) = c # t" and t: "accountTail t"
        by (cases "dropWhile ?P (drop 9 v)") simp_all
      from d have "dropWhile ?P (drop 9 v) \<noteq> []" by simp
      then have "\<not> ?P (hd (dropWhile ?P (drop 9 v)))" by (rule hd_dropWhile)
      with d have "c = CHR ''/''" by simp
      with d t show ?thesis by (auto intro: b)
    qed
  qed
  then show ?thesis
  proof cases
    case 1
    from accountTail_cases [OF 1] obtain d where d: "isAccountId d"
      and "drop 9 v = d \<or> drop 9 v = d @ ''/''" by blast
    with v have "v = ''/AWSLogs'' @ CHR ''/'' # d \<or> v = ''/AWSLogs'' @ CHR ''/'' # d @ ''/''"
      by auto
    with d show ?thesis by blast
  next
    case 2
    from accountTail_cases [OF 2(2)] obtain d where d: "isAccountId d"
      and t: "t = d \<or> t = d @ ''/''" by blast
    have "drop 9 v = takeWhile ?P (drop 9 v) @ CHR ''/'' # t"
      using takeWhile_dropWhile_id [of ?P "drop 9 v"] 2(1) by simp
    with v have "v = (''/AWSLogs/'' @ takeWhile ?P (drop 9 v)) @ CHR ''/'' # t" by simp
    with t have "v = (''/AWSLogs/'' @ takeWhile ?P (drop 9 v)) @ CHR ''/'' # d
        \<or> v = (''/AWSLogs/'' @ takeWhile ?P (drop 9 v)) @ CHR ''/'' # d @ ''/''"
      by auto
    with d show ?thesis by blast
  qed
qed

lemma last_segment:
  assumes "y @ CHR ''/'' # d = z @ CHR ''/'' # e"
    and "CHR ''/'' \<notin> set d" and "CHR ''/'' \<notin> set e"
  shows "d = e"
proof -
  let ?P = "\<lambda>c. c \<noteq> CHR ''/''"
  have "takeWhile ?P (rev (y @ CHR ''/'' # d)) = rev d"
    using assms(2) by (auto simp: takeWhile_tail)
  moreover have "takeWhile ?P (rev (z @ CHR ''/'' # e)) = rev e"
    using assms(3) by (auto simp: takeWhile_tail)
  ultimately show ?thesis using assms(1) by simp
qed

lemma org_prefix_not_account:
  assumes "isOrgId org"
  shows "\<not> awsLogsRE (base @ ''/AWSLogs/o-'' @ org)"
proof
  let ?w = "''o-'' @ org"
  assume "awsLogsRE (base @ ''/AWSLogs/o-'' @ org)"
  then obtain u v where uv: "base @ ''/AWSLogs/o-'' @ org = u @ v" and v: "awsLogsWhole v"
    by (auto simp: awsLogsRE_def anySuffix_iff)
  from awsLogsWhole_cases [OF v] obtain x d where d: "isAccountId d"
    and c: "v = x @ CHR ''/'' # d \<or> v = x @ CHR ''/'' # d @ ''/''" by blast
  from assms have ns: "CHR ''/'' \<notin> set ?w"
    by (auto simp: isOrgId_def list_all_iff dest: alnum_not_slash)
  from assms have one: "org \<noteq> []" by (auto simp: isOrgId_def)
  have s: "base @ ''/AWSLogs/o-'' @ org = (base @ ''/AWSLogs'') @ CHR ''/'' # ?w" by simp
  from c show False
  proof
    assume "v = x @ CHR ''/'' # d"
    with uv s have "(u @ x) @ CHR ''/'' # d = (base @ ''/AWSLogs'') @ CHR ''/'' # ?w" by simp
    moreover from d have "CHR ''/'' \<notin> set d"
      by (auto simp: isAccountId_def list_all_iff dest: digit_not_slash)
    ultimately have "d = ?w" using ns by (rule last_segment)
    with d show False by (auto simp: isAccountId_def dest: digit_not_o)
  next
    assume "v = x @ CHR ''/'' # d @ ''/''"
    with uv have "last (base @ ''/AWSLogs/o-'' @ org) = CHR ''/''" by simp
    with one have "last org = CHR ''/''" by simp
    moreover from one have "last org \<in> set org" by simp
    ultimately show False using ns by simp
  qed
qed

lemma org_prefix_org: "isOrgId org \<Longrightarrow> awsLogsOrgRE (base @ ''/AWSLogs/o-'' @ org)"
proof -
  assume "isOrgId org"
  then have "awsLogsOrgWhole (''/AWSLogs/o-'' @ org)"
    using orgSegment_org [of org] by (simp add: awsLogsOrgWhole_def)
  then show ?thesis by (auto simp: awsLogsOrgRE_def anySuffix_iff)
qed

lemma org_last: "isOrgId org \<Longrightarrow> org \<noteq> [] \<and> last org \<noteq> CHR ''/''"
proof -
  assume a: "isOrgId org"
  then have ne: "org \<noteq> []" by (auto simp: isOrgId_def)
  then have "last org \<in> set org" by simp
  with a have "isLowerAlnum (last org)" by (simp add: isOrgId_def list_all_iff)
  with ne show ?thesis by (simp add: alnum_not_slash)
qed

lemma dropWhile_replicate: "P x \<Longrightarrow> dropWhile P (replicate l x @ ys) = dropWhile P ys"
  by (induction l) simp_all

lemma splitComma_append:
  "CHR '','' \<notin> set x \<Longrightarrow> splitComma cur (x @ s) = splitComma (cur @ x) s"
  by (induction x arbitrary: cur) auto

lemma splitComma_join:
  "xs \<noteq> [] \<Longrightarrow> \<forall>x \<in> set xs. CHR '','' \<notin> set x \<Longrightarrow>
   splitComma cur (join_comma xs) = (cur @ hd xs) # tl xs"
proof (induction xs arbitrary: cur rule: join_comma.induct)
  case 1
  then show ?case by simp
next
  case (2 x)
  then show ?case using splitComma_append [of x cur "[]"] by simp
next
  case (3 x y ys)
  have "splitComma cur (x @ '','' @ join_comma (y # ys))
      = splitComma (cur @ x) ('','' @ join_comma (y # ys))"
    using "3.prems" by (simp add: splitComma_append)
  also have "\<dots> = (cur @ x) # splitComma [] (join_comma (y # ys))" by simp
  also have "splitComma [] (join_comma (y # ys)) = ([] @ hd (y # ys)) # tl (y # ys)"
    by (rule "3.IH") (use "3.prems" in simp_all)
  finally show ?case by simp
qed

lemma Split_join:
  "xs \<noteq> [] \<Longrightarrow> \<forall>x \<in> set xs. CHR '','' \<notin> set x \<Longrightarrow> Split (join_comma xs) = xs"
  by (simp add: Split_def splitComma_join)

lemma account_chars:
  "isAccountId a \<Longrightarrow> a \<noteq> [] \<and> \<not> isSpace (hd a) \<and> \<not> isSpace (last a) \<and> hd a \<noteq> CHR '' ''
     \<and> (\<forall>c \<in> set a. c \<noteq> CHR '','')"
proof -
  assume a: "isAccountId a"
  then have ne: "a \<noteq> []" by (auto simp: isAccountId_def)
  then have "hd a \<in> set a" "last a \<in> set a" by simp_all
  with a have "isDigit (hd a)" "isDigit (last a)" by (simp_all add: isAccountId_def list_all_iff)
  moreover from a have "\<forall>c \<in> set a. c \<noteq> CHR '',''"
    by (auto simp: isAccountId_def list_all_iff dest: digit_not_space)
  ultimately show ?thesis using ne by (simp add: digit_not_space)
qed

lemma padded_no_comma: "isAccountId (accountOf e) \<Longrightarrow> CHR '','' \<notin> set (padded e)"
  by (cases e) (auto dest: account_chars)

lemma space_isSpace: "isSpace (CHR '' '')"
  by (simp add: isSpace_def)

lemma TrimSpace_padded:
  assumes "isAccountId (accountOf e)"
  shows "TrimSpace (padded e) = accountOf e"
proof -
  obtain l a r where e: "e = (l, a, r)" by (cases e)
  with assms have a: "isAccountId a" by simp
  from account_chars [OF a] obtain d ds where ad: "a = d # ds" and d: "\<not> isSpace d"
    by (cases a) auto
  from account_chars [OF a] have la: "\<not> isSpace (last a)" and ne: "a \<noteq> []" by simp_all
  have 1: "dropWhile isSpace (replicate l (CHR '' '') @ a @ replicate r (CHR '' ''))
      = a @ replicate r (CHR '' '')"
    using d by (simp add: dropWhile_replicate space_isSpace ad)
  from ne la obtain bs z where az: "a = bs @ [z]" and z: "\<not> isSpace z"
    by (cases a rule: rev_cases) auto
  have 2: "dropWhile isSpace (rev (a @ replicate r (CHR '' ''))) = rev a"
    using z by (simp add: az dropWhile_replicate space_isSpace)
  show ?thesis unfolding TrimSpace_def e using 1 2 by simp
qed

lemma accountItems_Suc:
  "s \<noteq> [] \<Longrightarrow> accountItems (Suc n) s =
     (let s1 = dropWhile (\<lambda>x. x = CHR '' '') s in
      length (take 12 s1) = 12 \<and> list_all isDigit (take 12 s1) \<and>
      (let s2 = dropWhile (\<lambda>x. x = CHR '' '') (drop 12 s1) in
       accountItems n (case s2 of [] \<Rightarrow> [] | x # xs \<Rightarrow> if x = CHR '','' then xs else s2)))"
  by (cases s) simp_all

lemma accountItems_join:
  "\<forall>e \<in> set es. isAccountId (accountOf e) \<Longrightarrow> length es \<le> n \<Longrightarrow>
   accountItems n (join_comma (map padded es))"
proof (induction es arbitrary: n)
  case Nil
  then show ?case by simp
next
  case (Cons e es)
  obtain l a r where e: "e = (l, a, r)" by (cases e)
  with Cons.prems have a: "isAccountId a" by simp
  from Cons.prems(2) obtain n' where n: "n = Suc n'" and n': "length es \<le> n'"
    by (cases n) auto
  from account_chars [OF a] obtain d ds where ad: "a = d # ds" and d: "d \<noteq> CHR '' ''"
    by (cases a) auto
  from a have len: "length a = 12" and dig: "list_all isDigit a" by (simp_all add: isAccountId_def)
  let ?sp = "\<lambda>x. x = CHR '' ''"
  define rest where "rest = (case es of [] \<Rightarrow> [] | _ \<Rightarrow> '','' @ join_comma (map padded es))"
  have s: "join_comma (map padded (e # es)) = replicate l (CHR '' '') @ a @ replicate r (CHR '' '') @ rest"
    by (cases es) (simp_all add: e rest_def)
  have ne: "replicate l (CHR '' '') @ a @ replicate r (CHR '' '') @ rest \<noteq> []" using ad by simp
  have s1: "dropWhile ?sp (replicate l (CHR '' '') @ a @ replicate r (CHR '' '') @ rest)
      = a @ replicate r (CHR '' '') @ rest"
    using d by (simp add: dropWhile_replicate ad)
  have s2: "dropWhile ?sp (replicate r (CHR '' '') @ rest) = rest"
  proof (cases es)
    case Nil
    then show ?thesis using dropWhile_replicate [of ?sp "CHR '' ''" r rest] by (simp add: rest_def)
  next
    case (Cons e' es')
    then show ?thesis using dropWhile_replicate [of ?sp "CHR '' ''" r rest] by (simp add: rest_def)
  qed
  have tail: "accountItems n' (case rest of [] \<Rightarrow> [] | x # xs \<Rightarrow> if x = CHR '','' then xs else rest)"
  proof (cases es)
    case Nil
    then show ?thesis by (simp add: rest_def)
  next
    case (Cons e' es')
    have "accountItems n' (join_comma (map padded es))"
      by (rule Cons.IH) (use Cons.prems n' \<open>\<forall>e\<in>set (e # es). isAccountId (accountOf e)\<close> in simp_all)
    with Cons show ?thesis by (simp add: rest_def)
  qed
  have "accountItems (Suc n') (replicate l (CHR '' '') @ a @ replicate r (CHR '' '') @ rest)"
  proof -
    have d12: "dropWhile ?sp (drop 12 (a @ replicate r (CHR '' '') @ rest)) = rest"
      using len s2 by simp
    show ?thesis
      using len dig tail
        by (subst accountItems_Suc [OF ne]) (simp add: s1 Let_def d12 s2 cong: list.case_cong if_cong)
  qed
  then show ?case unfolding n s .
qed

lemma accountListRE_join:
  assumes "\<forall>e \<in> set es. isAccountId (accountOf e)"
  shows "accountListRE (join_comma (map padded es))"
proof -
  have "length es \<le> length (join_comma (map padded es))"
    using assms
  proof (induction es)
    case Nil
    then show ?case by simp
  next
    case (Cons e es)
    obtain l a r where e: "e = (l, a, r)" by (cases e)
    with Cons.prems have "length a = 12" by (simp add: isAccountId_def)
    with Cons show ?case by (cases es) (simp_all add: e)
  qed
  with assms show ?thesis unfolding accountListRE_def by (rule accountItems_join)
qed

text \<open>
  C6. A prefix that ends in \<open>/AWSLogs/\<close> and a twelve-digit account, with or
  without a trailing slash and with or without an organization segment before the
  account, gives exactly one listing prefix: the prefix, \<open>/CloudTrail/\<close> added
  after the account. A prefix that ends in \<open>/AWSLogs/o-\<close> and an organization
  identifier, with an account list of one or more twelve-digit accounts separated
  by commas, each between any number of spaces, passes the check of the account
  list and gives exactly one listing prefix for each account, in the order of the
  list: the prefix, the account and \<open>/CloudTrail/\<close>.
\<close>

theorem prefix_classification:
  assumes "isAccountId account" and "isOrgId org"
  shows "intervalPrefixes w bkt (base @ ''/AWSLogs/'' @ account) accountList
           = Inr [base @ ''/AWSLogs/'' @ account @ ''/CloudTrail/'']
       \<and> intervalPrefixes w bkt (base @ ''/AWSLogs/'' @ account @ ''/'') accountList
           = Inr [base @ ''/AWSLogs/'' @ account @ ''/CloudTrail/'']
       \<and> intervalPrefixes w bkt (base @ ''/AWSLogs/o-'' @ org @ ''/'' @ account) accountList
           = Inr [base @ ''/AWSLogs/o-'' @ org @ ''/'' @ account @ ''/CloudTrail/'']
       \<and> intervalPrefixes w bkt (base @ ''/AWSLogs/o-'' @ org @ ''/'' @ account @ ''/'') accountList
           = Inr [base @ ''/AWSLogs/o-'' @ org @ ''/'' @ account @ ''/CloudTrail/'']
       \<and> (entries \<noteq> [] \<and> (\<forall>e \<in> set entries. isAccountId (accountOf e)) \<longrightarrow>
            accountListRE (join_comma (map padded entries))
            \<and> intervalPrefixes w bkt (base @ ''/AWSLogs/o-'' @ org) (join_comma (map padded entries))
                = Inr (map (\<lambda>e. base @ ''/AWSLogs/o-'' @ org @ ''/'' @ accountOf e @ ''/CloudTrail/'')
                         entries))"
proof (intro conjI impI)
  note al = account_last [OF assms(1)]
  have m1: "awsLogsRE (base @ ''/AWSLogs/'' @ account)"
    and m2: "awsLogsRE (base @ ''/AWSLogs/'' @ account @ ''/'')"
    using awsLogsWhole_account [OF assms(1)] awsLogsRE_suffix by blast+
  have m3: "awsLogsRE (base @ ''/AWSLogs/o-'' @ org @ ''/'' @ account)"
    and m4: "awsLogsRE (base @ ''/AWSLogs/o-'' @ org @ ''/'' @ account @ ''/'')"
    using awsLogsWhole_org_account [OF assms(2,1)] awsLogsRE_suffix by blast+
  have e1: "ensureSlash (base @ ''/AWSLogs/'' @ account) = base @ ''/AWSLogs/'' @ account @ ''/''"
    using ensureSlash_other [of account "base @ ''/AWSLogs/''"] al by simp
  have e2: "ensureSlash (base @ ''/AWSLogs/'' @ account @ ''/'') = base @ ''/AWSLogs/'' @ account @ ''/''"
    using ensureSlash_slash [of "base @ ''/AWSLogs/'' @ account"] by simp
  have e3: "ensureSlash (base @ ''/AWSLogs/o-'' @ org @ ''/'' @ account)
      = base @ ''/AWSLogs/o-'' @ org @ ''/'' @ account @ ''/''"
    using ensureSlash_other [of account "base @ ''/AWSLogs/o-'' @ org @ ''/''"] al by simp
  have e4: "ensureSlash (base @ ''/AWSLogs/o-'' @ org @ ''/'' @ account @ ''/'')
      = base @ ''/AWSLogs/o-'' @ org @ ''/'' @ account @ ''/''"
    using ensureSlash_slash [of "base @ ''/AWSLogs/o-'' @ org @ ''/'' @ account"] by simp
  show "intervalPrefixes w bkt (base @ ''/AWSLogs/'' @ account) accountList
           = Inr [base @ ''/AWSLogs/'' @ account @ ''/CloudTrail/'']"
    using m1 e1 by (simp add: intervalPrefixes_def)
  show "intervalPrefixes w bkt (base @ ''/AWSLogs/'' @ account @ ''/'') accountList
           = Inr [base @ ''/AWSLogs/'' @ account @ ''/CloudTrail/'']"
    using m2 e2 by (simp add: intervalPrefixes_def)
  show "intervalPrefixes w bkt (base @ ''/AWSLogs/o-'' @ org @ ''/'' @ account) accountList
           = Inr [base @ ''/AWSLogs/o-'' @ org @ ''/'' @ account @ ''/CloudTrail/'']"
    using m3 e3 by (simp add: intervalPrefixes_def)
  show "intervalPrefixes w bkt (base @ ''/AWSLogs/o-'' @ org @ ''/'' @ account @ ''/'') accountList
           = Inr [base @ ''/AWSLogs/o-'' @ org @ ''/'' @ account @ ''/CloudTrail/'']"
    using m4 e4 by (simp add: intervalPrefixes_def)
next
  assume a: "entries \<noteq> [] \<and> (\<forall>e \<in> set entries. isAccountId (accountOf e))"
  then show "accountListRE (join_comma (map padded entries))"
    by (simp add: accountListRE_join)
next
  assume a: "entries \<noteq> [] \<and> (\<forall>e \<in> set entries. isAccountId (accountOf e))"
  let ?list = "join_comma (map padded entries)"
  from a have nc: "\<forall>x \<in> set (map padded entries). CHR '','' \<notin> set x"
    by (auto dest: padded_no_comma)
  from a have sp: "Split ?list = map padded entries"
    using Split_join [OF _ nc] by simp
  from a have tr: "map TrimSpace (map padded entries) = map accountOf entries"
    by (simp add: TrimSpace_padded)
  from a obtain e es where "entries = e # es" by (cases entries) auto
  moreover obtain l c r where "e = (l, c, r)" by (cases e)
  ultimately have "isAccountId c" and "?list = replicate l (CHR '' '') @ c @ replicate r (CHR '' '')
      @ (case es of [] \<Rightarrow> [] | _ \<Rightarrow> '','' @ join_comma (map padded es))"
    using a by (cases es; simp)+
  then have ne: "?list \<noteq> []" by (auto simp: isAccountId_def)
  define P where "P = base @ ''/AWSLogs/o-'' @ org"
  have es: "ensureSlash P = P @ ''/''"
    using ensureSlash_other [of org "base @ ''/AWSLogs/o-''"] org_last [OF assms(2)]
    by (simp add: P_def)
  have nm: "\<not> awsLogsRE P" and m: "awsLogsOrgRE P"
    using org_prefix_not_account [OF assms(2), of base] org_prefix_org [OF assms(2), of base]
    by (simp_all add: P_def)
  from a have tr': "\<forall>e \<in> set entries. TrimSpace (padded e) = accountOf e"
    by (simp add: TrimSpace_padded)
  have "intervalPrefixes w bkt P ?list
          = Inr (map (\<lambda>e. (P @ ''/'') @ accountOf e @ ''/CloudTrail/'') entries)"
    using nm m ne tr' by (simp add: intervalPrefixes_def sp es)
  then show "intervalPrefixes w bkt (base @ ''/AWSLogs/o-'' @ org) ?list
          = Inr (map (\<lambda>e. base @ ''/AWSLogs/o-'' @ org @ ''/'' @ accountOf e @ ''/CloudTrail/'') entries)"
    by (simp add: P_def)
qed

theorem prefix_classification_witness:
  "isAccountId ''123456789012'' \<and> isOrgId ''exampleorgid''
   \<and> intervalPrefixes flatListing ''trail'' ''logs/AWSLogs/123456789012'' []
       = Inr [''logs/AWSLogs/123456789012/CloudTrail/'']
   \<and> intervalPrefixes flatListing ''trail'' ''logs/AWSLogs/o-exampleorgid/123456789012/'' []
       = Inr [''logs/AWSLogs/o-exampleorgid/123456789012/CloudTrail/'']
   \<and> accountListRE ''111111111111, 222222222222''
   \<and> intervalPrefixes flatListing ''trail'' ''logs/AWSLogs/o-exampleorgid''
         ''111111111111, 222222222222''
       = Inr [''logs/AWSLogs/o-exampleorgid/111111111111/CloudTrail/'',
              ''logs/AWSLogs/o-exampleorgid/222222222222/CloudTrail/'']"
proof -
  have a: "isAccountId ''123456789012''" and o: "isOrgId ''exampleorgid''"
    and e: "isAccountId ''111111111111''" "isAccountId ''222222222222''"
    by (simp_all add: isAccountId_def isOrgId_def isDigit_def isLowerAlnum_def)
  have j: "join_comma (map padded [(0, ''111111111111'', 0), (1, ''222222222222'', 0)])
      = ''111111111111, 222222222222''" by simp
  note inst = prefix_classification [OF a o, where w = flatListing and bkt = "''trail''"
      and base = "''logs''" and accountList = "[]"
      and entries = "[(0, ''111111111111'', 0), (1, ''222222222222'', 0)]", unfolded j]
  from inst e a o show ?thesis by simp
qed

end
